theory Spec2Isabelle
  imports Complex_Main "HOL-Library.Word"
begin

unbundle bit_operations_syntax

section \<open>Ros2RangeFinder: data model\<close>

text \<open>
  The plugin \<^verbatim>\<open>Ros2RangeFinder\<close> (file \<^verbatim>\<open>Ros2RangeFinder.cpp\<close>) has two entry points,
  \<^verbatim>\<open>init\<close> and \<open>step\<close>, and two helpers, \<^verbatim>\<open>publishImage\<close> and
  \<^verbatim>\<open>publishPointCloud\<close>. The embedding passes the plugin object explicitly and returns,
  beside the new object, the list of calls made to the outside world (sensor commands and
  publications) in the order the code makes them.

  Undefined behaviour and exceptions of the C++ are values of \<open>error\<close>: a signed
  \<^verbatim>\<open>int\<close> product that leaves the 32-bit range, a \<^verbatim>\<open>resize\<close> whose argument
  converts to a size beyond \<^verbatim>\<open>max_size\<close>, a read or write outside a buffer, and
  the failed \<^verbatim>\<open>assert\<close> on a missing device.
\<close>

type_synonym byte = "8 word"

datatype error = AssertionFailed | SignedOverflow | LengthError | OutOfBounds

definition bnd :: "error + 'a \<Rightarrow> ('a \<Rightarrow> error + 'b) \<Rightarrow> error + 'b" where
  "bnd m f = (case m of Inl e \<Rightarrow> Inl e | Inr v \<Rightarrow> f v)"

subsection \<open>Machine integers\<close>

text \<open>
  \<^verbatim>\<open>int\<close> is 32 bits wide. Its values are modelled as integers, and every
  multiplication and addition the code performs on \<^verbatim>\<open>int\<close> is checked against the
  range. The loop counters are incremented only while they are below a bound that is
  itself an \<^verbatim>\<open>int\<close>, so \<^verbatim>\<open>i++\<close> and \<^verbatim>\<open>j++\<close> cannot overflow and are plain
  additions. Conversions to the unsigned message fields wrap modulo \<open>2 ^ 32\<close>.
\<close>

definition in_int :: "int \<Rightarrow> bool" where
  "in_int x \<longleftrightarrow> - (2 ^ 31) \<le> x \<and> x < 2 ^ 31"

definition mul_int :: "int \<Rightarrow> int \<Rightarrow> error + int" where
  "mul_int a b = (if in_int (a * b) then Inr (a * b) else Inl SignedOverflow)"

definition add_int :: "int \<Rightarrow> int \<Rightarrow> error + int" where
  "add_int a b = (if in_int (a + b) then Inr (a + b) else Inl SignedOverflow)"

definition uint32 :: "int \<Rightarrow> nat" where
  "uint32 x = nat (x mod 2 ^ 32)"

definition int_of_uint32 :: "nat \<Rightarrow> int" where
  "int_of_uint32 u = (if u < 2 ^ 31 then int u else int u - 2 ^ 32)"

text \<open>
  \<^verbatim>\<open>data.resize(n)\<close> on a freshly constructed vector, with \<open>n\<close> an \<^verbatim>\<open>int\<close>
  expression: a negative \<open>n\<close> converts to a \<^verbatim>\<open>size_t\<close> above \<^verbatim>\<open>max_size()\<close> and
  \<^verbatim>\<open>resize\<close> throws \<^verbatim>\<open>std::length_error\<close>; otherwise the vector holds \<open>n\<close>
  value-initialised elements.
\<close>

definition resize :: "int \<Rightarrow> 'a \<Rightarrow> error + 'a list" where
  "resize n z = (if n < 0 then Inl LengthError else Inr (replicate (nat n) z))"

subsection \<open>Floating point\<close>

text \<open>
  The code computes the calibration in \<^verbatim>\<open>double\<close> and the projection in
  \<^verbatim>\<open>float\<close>. Both types and their operations are parameters of the model: \<open>'d\<close> for
  \<^verbatim>\<open>double\<close>, \<open>'f\<close> for \<^verbatim>\<open>float\<close>, and a record of the operations the code uses.
  Nothing is assumed of them, so what is proved for every \<open>arith\<close> holds for IEEE 754
  arithmetic with its rounding, infinities and NaNs.
\<close>

record ('d, 'f) arith =
  d_of_int :: "int \<Rightarrow> 'd"
  d_zero :: "'d"
  d_one :: "'d"
  d_half :: "'d"
  d_mul :: "'d \<Rightarrow> 'd \<Rightarrow> 'd"
  d_div :: "'d \<Rightarrow> 'd \<Rightarrow> 'd"
  d_tan :: "'d \<Rightarrow> 'd"
  f_of_d :: "'d \<Rightarrow> 'f"
  f_of_int :: "int \<Rightarrow> 'f"
  f_neg :: "'f \<Rightarrow> 'f"
  f_sub :: "'f \<Rightarrow> 'f \<Rightarrow> 'f"
  f_mul :: "'f \<Rightarrow> 'f \<Rightarrow> 'f"
  f_div :: "'f \<Rightarrow> 'f \<Rightarrow> 'f"
  f_zero :: "'f"

text \<open>
  The exact instance: both types are the real numbers, every operation is the
  mathematical one and the conversions are the identity. It is the arithmetic the
  specification's formulas are written in.
\<close>

definition real_arith :: "(real, real) arith" where
  "real_arith = \<lparr> d_of_int = of_int, d_zero = 0, d_one = 1, d_half = 1 / 2,
     d_mul = (*), d_div = (/), d_tan = tan, f_of_d = id, f_of_int = of_int,
     f_neg = uminus, f_sub = (-), f_mul = (*), f_div = (/), f_zero = 0 \<rparr>"

text \<open>
  A \<^verbatim>\<open>float\<close> in memory is four bytes. On the little-endian hosts the driver runs on
  these are the bytes of its IEEE 754 bit pattern, least significant first; the
  messages say so with \<^verbatim>\<open>is_bigendian = false\<close>.
\<close>

definition le_bytes :: "32 word \<Rightarrow> byte list" where
  "le_bytes w = [ucast w, ucast (drop_bit 8 w), ucast (drop_bit 16 w), ucast (drop_bit 24 w)]"

definition le_word :: "byte \<Rightarrow> byte \<Rightarrow> byte \<Rightarrow> byte \<Rightarrow> 32 word" where
  "le_word b0 b1 b2 b3 =
     ucast b0 OR push_bit 8 (ucast b1) OR push_bit 16 (ucast b2) OR push_bit 24 (ucast b3)"

fun decode_floats :: "byte list \<Rightarrow> 32 word list" where
  "decode_floats (b0 # b1 # b2 # b3 # bs) = le_word b0 b1 b2 b3 # decode_floats bs"
| "decode_floats _ = []"

subsection \<open>Messages, plugin object, outside world\<close>

record image_msg =
  im_height :: nat
  im_width :: nat
  im_encoding :: string
  im_is_bigendian :: bool
  im_step :: nat
  im_data :: "byte list"

record 'd camera_info =
  ci_height :: nat
  ci_width :: nat
  ci_distortion_model :: string
  ci_d :: "'d list"
  ci_k :: "'d list"
  ci_r :: "'d list"
  ci_p :: "'d list"

text \<open>
  The point-cloud message keeps its data as bytes, but the code writes it only through
  \<^verbatim>\<open>float* data = (float*)mPointCloudMessage.data.data()\<close>, one \<^verbatim>\<open>float\<close> at a time.
  The model keeps the buffer as the \<^verbatim>\<open>float\<close> array the code sees: a vector of \<open>n\<close>
  bytes is \<open>n div 4\<close> floats.
\<close>

record 'f point_cloud =
  pc_height :: nat
  pc_width :: nat
  pc_fields :: "(string \<times> nat \<times> nat \<times> nat) list"
  pc_is_bigendian :: bool
  pc_point_step :: nat
  pc_row_step :: nat
  pc_data :: "'f list"

record ('d, 'f) plugin =
  mIsEnabled :: bool
  mAlwaysOn :: bool
  mImageMessage :: image_msg
  mCameraInfoMessage :: "'d camera_info"
  mPointCloudMessage :: "'f point_cloud"

text \<open>
  The sensor: what \<^verbatim>\<open>getRangeFinder\<close> returns (\<open>None\<close> for \<^verbatim>\<open>NULL\<close>), with the three
  values \<^verbatim>\<open>init\<close> reads from it.
\<close>

record 'd range_finder =
  getWidth :: int
  getHeight :: int
  getFov :: "'d"

text \<open>
  The calls the plugin makes: the two sensor commands and the three publications. The
  sampling period passed to \<^verbatim>\<open>enable\<close> and the time stamps are constants and clock
  readings of the base class and the node; they are left out.
\<close>

datatype ('d, 'f) event =
    Enable
  | Disable
  | PubImage image_msg
  | PubCameraInfo "'d camera_info"
  | PubPointCloud "'f point_cloud"

text \<open>
  What one call of \<open>step\<close> sees of the outside: the result of the base class's
  \<^verbatim>\<open>preStep()\<close>, the pointer returned by \<^verbatim>\<open>getRangeImage()\<close> (\<open>None\<close> for a null
  pointer, otherwise the array it points to) and the image publisher's
  \<^verbatim>\<open>get_subscription_count()\<close>.
\<close>

record 'f tick =
  preStep :: bool
  getRangeImage :: "'f list option"
  get_subscription_count :: nat

section \<open>init\<close>

definition focalLengthX :: "('d, 'f) arith \<Rightarrow> int \<Rightarrow> 'd \<Rightarrow> 'd" where
  "focalLengthX ar width fov =
     d_mul ar (d_mul ar (d_half ar) (d_of_int ar width))
       (d_div ar (d_of_int ar 1) (d_tan ar (d_mul ar (d_half ar) fov)))"

definition focalLengthY :: "('d, 'f) arith \<Rightarrow> int \<Rightarrow> 'd \<Rightarrow> 'd" where
  "focalLengthY ar height fov =
     d_mul ar (d_mul ar (d_half ar) (d_of_int ar height))
       (d_div ar (d_of_int ar 1) (d_tan ar (d_mul ar (d_half ar) fov)))"

definition init_image :: "int \<Rightarrow> int \<Rightarrow> error + image_msg" where
  "init_image width height =
     bnd (mul_int 4 width) (\<lambda>w4.
     bnd (mul_int w4 height) (\<lambda>n.
     bnd (resize n 0) (\<lambda>bytes.
     Inr \<lparr> im_height = uint32 height, im_width = uint32 width,
           im_encoding = ''32FC1'', im_is_bigendian = False,
           im_step = uint32 (4 * (width mod 2 ^ 64) mod 2 ^ 64),
           im_data = bytes \<rparr>)))"

definition init_camera_info :: "('d, 'f) arith \<Rightarrow> int \<Rightarrow> int \<Rightarrow> 'd \<Rightarrow> 'd camera_info" where
  "init_camera_info ar width height fov =
     (let fx = focalLengthX ar width fov;
          fy = focalLengthY ar height fov;
          cx = d_div ar (d_of_int ar width) (d_of_int ar 2);
          cy = d_div ar (d_of_int ar height) (d_of_int ar 2);
          z = d_zero ar; e = d_one ar
      in \<lparr> ci_height = uint32 height, ci_width = uint32 width,
            ci_distortion_model = ''plumb_bob'',
            ci_d = [z, z, z, z, z],
            ci_k = [fx, z, cx,
                    z, fy, cy,
                    z, z, e],
            ci_r = [e, z, z, z, e, z, z, z, e],
            ci_p = [fx, z, cx, z,
                    z, fy, cy, z,
                    z, z, e, z] \<rparr>)"

definition init_point_cloud :: "('d, 'f) arith \<Rightarrow> int \<Rightarrow> int \<Rightarrow> error + 'f point_cloud" where
  "init_point_cloud ar width height =
     bnd (mul_int width 12) (\<lambda>row.
     bnd (mul_int row height) (\<lambda>n.
     bnd (resize n (0 :: byte)) (\<lambda>bytes.
     Inr \<lparr> pc_height = uint32 height, pc_width = uint32 width,
           pc_fields = [(''x'', 0, 7, 1), (''y'', 4, 7, 1), (''z'', 8, 7, 1)],
           pc_is_bigendian = False, pc_point_step = 12, pc_row_step = uint32 row,
           pc_data = replicate (length bytes div 4) (f_zero ar) \<rparr>)))"

definition init ::
  "('d, 'f) arith \<Rightarrow> bool \<Rightarrow> 'd range_finder option \<Rightarrow>
     error + (('d, 'f) plugin \<times> ('d, 'f) event list)" where
  "init ar alwaysOn mRangeFinder =
     (case mRangeFinder of
        None \<Rightarrow> Inl AssertionFailed
      | Some rf \<Rightarrow>
          (let width = getWidth rf; height = getHeight rf in
           bnd (init_image width height) (\<lambda>img.
           let info = init_camera_info ar width height (getFov rf) in
           bnd (init_point_cloud ar width height) (\<lambda>cloud.
           let this = \<lparr> mIsEnabled = False, mAlwaysOn = alwaysOn, mImageMessage = img,
                        mCameraInfoMessage = info, mPointCloudMessage = cloud \<rparr>
           in if alwaysOn
              then Inr (this\<lparr>mIsEnabled := True\<rparr>, [PubCameraInfo info, Enable])
              else Inr (this, [PubCameraInfo info])))))"

section \<open>publishImage\<close>

text \<open>
  \<^verbatim>\<open>memcpy(dst, image, n)\<close> reads the first \<open>n\<close> bytes of the array \<open>image\<close> points
  to; \<open>repr\<close> gives the bytes of one element. Reading past the array is an error.
\<close>

definition memcpy_from :: "('f \<Rightarrow> byte list) \<Rightarrow> 'f list \<Rightarrow> nat \<Rightarrow> error + byte list" where
  "memcpy_from repr img n =
     (let bytes = concat (map repr img)
      in if n \<le> length bytes then Inr (take n bytes) else Inl OutOfBounds)"

definition publishImage ::
  "('f \<Rightarrow> byte list) \<Rightarrow> ('d, 'f) plugin \<Rightarrow> 'f list option \<Rightarrow>
     error + (('d, 'f) plugin \<times> ('d, 'f) event list)" where
  "publishImage repr this rangeImage =
     (case rangeImage of
        None \<Rightarrow> Inr (this, [])
      | Some img \<Rightarrow>
          bnd (memcpy_from repr img (length (im_data (mImageMessage this)))) (\<lambda>bytes.
          let msg = (mImageMessage this)\<lparr>im_data := bytes\<rparr>
          in Inr (this\<lparr>mImageMessage := msg\<rparr>, [PubImage msg])))"

section \<open>publishPointCloud\<close>

definition read_at :: "'a list \<Rightarrow> int \<Rightarrow> error + 'a" where
  "read_at xs n = (if 0 \<le> n \<and> n < int (length xs) then Inr (xs ! nat n) else Inl OutOfBounds)"

definition write_at :: "'a list \<Rightarrow> int \<Rightarrow> 'a \<Rightarrow> error + 'a list" where
  "write_at xs n v =
     (if 0 \<le> n \<and> n < int (length xs) then Inr (xs[nat n := v]) else Inl OutOfBounds)"

text \<open>The calibration constants as the projection reads them back, narrowed to \<^verbatim>\<open>float\<close>.\<close>

record 'f intrinsics =
  in_width :: int
  in_height :: int
  in_cx :: "'f"
  in_cy :: "'f"
  in_fx :: "'f"
  in_fy :: "'f"

definition read_intrinsics :: "('d, 'f) arith \<Rightarrow> 'd camera_info \<Rightarrow> 'f intrinsics" where
  "read_intrinsics ar info =
     \<lparr> in_width = int_of_uint32 (ci_width info),
       in_height = int_of_uint32 (ci_height info),
       in_cx = f_of_d ar (ci_k info ! 2),
       in_cy = f_of_d ar (ci_k info ! 5),
       in_fx = f_of_d ar (ci_k info ! 0),
       in_fy = f_of_d ar (ci_k info ! 4) \<rparr>"

text \<open>
  The two lateral coordinates. C++ parses \<^verbatim>\<open>-(i - cx) * x / fx\<close> as
  \<^verbatim>\<open>((-(i - cx)) * x) / fx\<close>, with \<open>i\<close> converted to \<^verbatim>\<open>float\<close> for the subtraction.
\<close>

definition lateral :: "('d, 'f) arith \<Rightarrow> int \<Rightarrow> 'f \<Rightarrow> 'f \<Rightarrow> 'f \<Rightarrow> 'f" where
  "lateral ar n c x f = f_div ar (f_mul ar (f_neg ar (f_sub ar (f_of_int ar n) c)) x) f"

text \<open>The body of the inner loop, for the pixel in column \<open>i\<close> of row \<open>j\<close>.\<close>

definition pixel ::
  "('d, 'f) arith \<Rightarrow> 'f intrinsics \<Rightarrow> 'f list \<Rightarrow> int \<Rightarrow> int \<Rightarrow> 'f list \<Rightarrow> error + 'f list" where
  "pixel ar c img j i data =
     bnd (mul_int j (in_width c)) (\<lambda>jw.
     bnd (add_int i jw) (\<lambda>idx.
     bnd (read_at img idx) (\<lambda>x.
     let y = lateral ar i (in_cx c) x (in_fx c);
         z = lateral ar j (in_cy c) x (in_fy c)
     in
     bnd (mul_int idx 3) (\<lambda>idx3.
     bnd (write_at data idx3 x) (\<lambda>data.
     bnd (write_at data (idx3 + 1) y) (\<lambda>data.
     write_at data (idx3 + 2) z))))))"

function loop_i ::
  "('d, 'f) arith \<Rightarrow> 'f intrinsics \<Rightarrow> 'f list \<Rightarrow> int \<Rightarrow> int \<Rightarrow> 'f list \<Rightarrow> error + 'f list" where
  "loop_i ar c img j i data =
     (if i < in_width c
      then bnd (pixel ar c img j i data) (loop_i ar c img j (i + 1))
      else Inr data)"
  by pat_completeness auto
termination
  by (relation "measure (\<lambda>(ar, c, img, j, i, data). nat (in_width c - i))") auto

function loop_j ::
  "('d, 'f) arith \<Rightarrow> 'f intrinsics \<Rightarrow> 'f list \<Rightarrow> int \<Rightarrow> 'f list \<Rightarrow> error + 'f list" where
  "loop_j ar c img j data =
     (if j < in_height c
      then bnd (loop_i ar c img j 0 data) (loop_j ar c img (j + 1))
      else Inr data)"
  by pat_completeness auto
termination
  by (relation "measure (\<lambda>(ar, c, img, j, data). nat (in_height c - j))") auto

declare loop_i.simps [simp del] loop_j.simps [simp del]

definition publishPointCloud ::
  "('d, 'f) arith \<Rightarrow> ('d, 'f) plugin \<Rightarrow> 'f list option \<Rightarrow>
     error + (('d, 'f) plugin \<times> ('d, 'f) event list)" where
  "publishPointCloud ar this rangeImage =
     (case rangeImage of
        None \<Rightarrow> Inr (this, [])
      | Some img \<Rightarrow>
          (let c = read_intrinsics ar (mCameraInfoMessage this) in
           bnd (loop_j ar c img 0 (pc_data (mPointCloudMessage this))) (\<lambda>data.
           let msg = (mPointCloudMessage this)\<lparr>pc_data := data\<rparr>
           in Inr (this\<lparr>mPointCloudMessage := msg\<rparr>, [PubPointCloud msg]))))"

section \<open>step\<close>

definition publish ::
  "('d, 'f) arith \<Rightarrow> ('f \<Rightarrow> byte list) \<Rightarrow> ('d, 'f) plugin \<Rightarrow> 'f list option \<Rightarrow>
     error + (('d, 'f) plugin \<times> ('d, 'f) event list)" where
  "publish ar repr this rangeImage =
     bnd (publishImage repr this rangeImage) (\<lambda>(this, out1).
     bnd (publishPointCloud ar this rangeImage) (\<lambda>(this, out2).
     Inr (this, out1 @ out2)))"

definition step ::
  "('d, 'f) arith \<Rightarrow> ('f \<Rightarrow> byte list) \<Rightarrow> ('d, 'f) plugin \<Rightarrow> 'f tick \<Rightarrow>
     error + (('d, 'f) plugin \<times> ('d, 'f) event list)" where
  "step ar repr this t =
     (if \<not> preStep t then Inr (this, [])
      else
        bnd (if mIsEnabled this then publish ar repr this (getRangeImage t) else Inr (this, []))
          (\<lambda>(this, out).
        if mAlwaysOn this then Inr (this, out)
        else
          (let shouldBeEnabled = (get_subscription_count t > 0) in
           if shouldBeEnabled \<noteq> mIsEnabled this
           then Inr (this\<lparr>mIsEnabled := shouldBeEnabled\<rparr>,
                     out @ [if shouldBeEnabled then Enable else Disable])
           else Inr (this, out))))"

text \<open>
  The host calls \<open>step\<close> once per simulation step. \<open>run\<close> feeds a list of ticks and
  returns, for each tick, the calls made on it.
\<close>

fun run ::
  "('d, 'f) arith \<Rightarrow> ('f \<Rightarrow> byte list) \<Rightarrow> ('d, 'f) plugin \<Rightarrow> 'f tick list \<Rightarrow>
     error + (('d, 'f) plugin \<times> ('d, 'f) event list list)" where
  "run ar repr this [] = Inr (this, [])"
| "run ar repr this (t # ts) =
     bnd (step ar repr this t) (\<lambda>(this, out).
     bnd (run ar repr this ts) (\<lambda>(this, outs).
     Inr (this, out # outs)))"

section \<open>Notions used in the statements\<close>

text \<open>
  The sensor commands among the calls of a tick, and the sensor as the commands leave
  it: \<^verbatim>\<open>enable\<close> switches sampling on, \<^verbatim>\<open>disable\<close> switches it off, a publication
  does not touch it.
\<close>

fun is_command :: "('d, 'f) event \<Rightarrow> bool" where
  "is_command Enable = True"
| "is_command Disable = True"
| "is_command _ = False"

definition commands :: "('d, 'f) event list \<Rightarrow> ('d, 'f) event list" where
  "commands out = filter is_command out"

fun sensor_after :: "bool \<Rightarrow> ('d, 'f) event list \<Rightarrow> bool" where
  "sensor_after on [] = on"
| "sensor_after on (Enable # out) = sensor_after True out"
| "sensor_after on (Disable # out) = sensor_after False out"
| "sensor_after on (_ # out) = sensor_after on out"

text \<open>
  \<open>written ar c img data j i\<close>: the buffer \<open>data\<close> holds, at the three places of
  pixel \<open>(i, j)\<close>, the point the loop body computes for it from \<open>img\<close>, and both the
  pixel and the point lie inside their arrays.
\<close>

definition written ::
  "('d, 'f) arith \<Rightarrow> 'f intrinsics \<Rightarrow> 'f list \<Rightarrow> 'f list \<Rightarrow> int \<Rightarrow> int \<Rightarrow> bool" where
  "written ar c img data j i \<longleftrightarrow>
     (let idx = i + j * in_width c; x = img ! nat idx
      in idx < int (length img) \<and> idx * 3 + 2 < int (length data) \<and>
         data ! nat (idx * 3) = x \<and>
         data ! nat (idx * 3 + 1) = lateral ar i (in_cx c) x (in_fx c) \<and>
         data ! nat (idx * 3 + 2) = lateral ar j (in_cy c) x (in_fy c))"

text \<open>
  \<open>sized ar rf this\<close>: the plugin object has the geometry \<^verbatim>\<open>init\<close> gave it for the
  sensor \<open>rf\<close>: the calibration message, the two buffer sizes and the image header.
\<close>

definition sized :: "('d, 'f) arith \<Rightarrow> 'd range_finder \<Rightarrow> ('d, 'f) plugin \<Rightarrow> bool" where
  "sized ar rf this \<longleftrightarrow>
     in_int (getWidth rf * 12) \<and> 0 \<le> getWidth rf * getHeight rf \<and>
     12 * (getWidth rf * getHeight rf) < 2 ^ 31 \<and>
     mCameraInfoMessage this = init_camera_info ar (getWidth rf) (getHeight rf) (getFov rf) \<and>
     length (im_data (mImageMessage this)) = nat (4 * (getWidth rf * getHeight rf)) \<and>
     length (pc_data (mPointCloudMessage this)) = nat (3 * (getWidth rf * getHeight rf)) \<and>
     im_step (mImageMessage this) = uint32 (4 * (getWidth rf mod 2 ^ 64) mod 2 ^ 64) \<and>
     \<not> im_is_bigendian (mImageMessage this) \<and> im_encoding (mImageMessage this) = ''32FC1''"


text \<open>
  The two halves of a tick that \<^verbatim>\<open>preStep\<close> lets through: \<open>emit\<close> is the
  publishing half of \<open>step\<close>, and \<open>toggles\<close> says that the second half sends a sensor
  command.
\<close>

definition emit ::
  "('d, 'f) arith \<Rightarrow> ('f \<Rightarrow> byte list) \<Rightarrow> ('d, 'f) plugin \<Rightarrow> 'f tick \<Rightarrow>
     error + (('d, 'f) plugin \<times> ('d, 'f) event list)" where
  "emit ar repr this t =
     (if mIsEnabled this then publish ar repr this (getRangeImage t) else Inr (this, []))"

definition toggles :: "('d, 'f) plugin \<Rightarrow> 'f tick \<Rightarrow> bool" where
  "toggles this t \<longleftrightarrow>
     preStep t \<and> \<not> mAlwaysOn this \<and> (0 < get_subscription_count t) \<noteq> mIsEnabled this"

text \<open>
  \<open>tick_ok rf t\<close>: the range image of the tick, when there is one, has as many values
  as the sensor \<open>rf\<close> has pixels.
\<close>

definition tick_ok :: "'d range_finder \<Rightarrow> 'f tick \<Rightarrow> bool" where
  "tick_ok rf t \<longleftrightarrow>
     (case getRangeImage t of
        None \<Rightarrow> True
      | Some img \<Rightarrow> length img = nat (getWidth rf * getHeight rf))"

subsection \<open>Concrete inputs\<close>

text \<open>
  Inputs on which the statements below are instantiated. \<open>bits_arith\<close> computes the
  calibration exactly and takes a \<^verbatim>\<open>float\<close> to be its 32-bit pattern; its float
  operations all return the pattern of \<open>+0.0\<close>. It stands for an arbitrary arithmetic
  in runs whose statement does not depend on the values of the points. \<open>example_rf\<close>
  is a sensor of two by one pixels with a field of view of a right angle, and
  \<open>example_ticks\<close> are five ticks with the subscription counts 0, 0, 3, 3, 0; the
  patterns \<open>0x40000000\<close> and \<open>0x3F800000\<close> are those of 2.0 and 1.0.
\<close>

definition bits_arith :: "(real, 32 word) arith" where
  "bits_arith = \<lparr> d_of_int = of_int, d_zero = 0, d_one = 1, d_half = 1 / 2,
     d_mul = (*), d_div = (/), d_tan = tan, f_of_d = (\<lambda>_. 0), f_of_int = (\<lambda>_. 0),
     f_neg = (\<lambda>_. 0), f_sub = (\<lambda>_ _. 0), f_mul = (\<lambda>_ _. 0), f_div = (\<lambda>_ _. 0),
     f_zero = 0 \<rparr>"

definition example_rf :: "real range_finder" where
  "example_rf = \<lparr> getWidth = 2, getHeight = 1, getFov = pi / 2 \<rparr>"

definition example_ticks :: "32 word tick list" where
  "example_ticks =
     [\<lparr> preStep = True, getRangeImage = None, get_subscription_count = 0 \<rparr>,
      \<lparr> preStep = True, getRangeImage = None, get_subscription_count = 0 \<rparr>,
      \<lparr> preStep = True, getRangeImage = None, get_subscription_count = 3 \<rparr>,
      \<lparr> preStep = True, getRangeImage = Some [0x40000000, 0x40000000],
        get_subscription_count = 3 \<rparr>,
      \<lparr> preStep = True, getRangeImage = Some [0x40000000, 0x3F800000],
        get_subscription_count = 0 \<rparr>]"

text \<open>
  \<open>first_demand_tick\<close>: a tick that \<^verbatim>\<open>preStep\<close> lets through, with three subscribers and
  a raw buffer of two values available.
\<close>

definition first_demand_tick :: "32 word tick" where
  "first_demand_tick =
     \<lparr> preStep = True, getRangeImage = Some [0x40000000, 0x40000000],
       get_subscription_count = 3 \<rparr>"

section \<open>Auxiliary facts\<close>

lemma bnd_Inr [simp]: "bnd (Inr v) f = f v"
  by (simp add: bnd_def)

lemma bnd_Inl [simp]: "bnd (Inl e) f = Inl e"
  by (simp add: bnd_def)

lemma bnd_eq_Inr: "bnd m f = Inr r \<longleftrightarrow> (\<exists>v. m = Inr v \<and> f v = Inr r)"
  by (cases m) simp_all

lemma mul_int_Inr: "mul_int a b = Inr v \<longleftrightarrow> in_int (a * b) \<and> v = a * b"
  by (auto simp: mul_int_def)

lemma add_int_Inr: "add_int a b = Inr v \<longleftrightarrow> in_int (a + b) \<and> v = a + b"
  by (auto simp: add_int_def)

lemma read_at_Inr: "read_at xs n = Inr v \<longleftrightarrow> 0 \<le> n \<and> n < int (length xs) \<and> v = xs ! nat n"
  by (auto simp: read_at_def)

lemma write_at_Inr:
  "write_at xs n v = Inr ys \<longleftrightarrow> 0 \<le> n \<and> n < int (length xs) \<and> ys = xs[nat n := v]"
  by (auto simp: write_at_def)

lemma resize_Inr: "resize n z = Inr xs \<longleftrightarrow> 0 \<le> n \<and> xs = replicate (nat n) z"
  by (auto simp: resize_def)

lemma pixel_Inr:
  "pixel ar c img j i data = Inr data' \<longleftrightarrow>
     in_int (j * in_width c) \<and> in_int (i + j * in_width c) \<and>
     0 \<le> i + j * in_width c \<and> i + j * in_width c < int (length img) \<and>
     in_int ((i + j * in_width c) * 3) \<and>
     (i + j * in_width c) * 3 + 2 < int (length data) \<and>
     data' = data
       [nat ((i + j * in_width c) * 3) := img ! nat (i + j * in_width c),
        nat ((i + j * in_width c) * 3 + 1) :=
          lateral ar i (in_cx c) (img ! nat (i + j * in_width c)) (in_fx c),
        nat ((i + j * in_width c) * 3 + 2) :=
          lateral ar j (in_cy c) (img ! nat (i + j * in_width c)) (in_fy c)]"
  unfolding pixel_def Let_def bnd_eq_Inr mul_int_Inr add_int_Inr read_at_Inr write_at_Inr
  by auto

lemma pixel_written:
  assumes "pixel ar c img j i data = Inr d1" "0 \<le> i + j * in_width c"
  shows "length d1 = length data" "written ar c img d1 j i"
    "\<And>n. n < nat ((i + j * in_width c) * 3) \<Longrightarrow> d1 ! n = data ! n"
  using assms unfolding pixel_Inr written_def Let_def
  by (auto simp: nth_list_update nat_add_distrib)

lemma written_frame:
  assumes "written ar c img d1 j i" "length d2 = length d1" "0 \<le> i + j * in_width c"
    "\<And>n. n < nat ((i + 1 + j * in_width c) * 3) \<Longrightarrow> d2 ! n = d1 ! n"
  shows "written ar c img d2 j i"
proof -
  let ?idx = "i + j * in_width c"
  have "nat (?idx * 3) < nat ((i + 1 + j * in_width c) * 3)"
    "nat (?idx * 3 + 1) < nat ((i + 1 + j * in_width c) * 3)"
    "nat (?idx * 3 + 2) < nat ((i + 1 + j * in_width c) * 3)"
    using assms(3) by auto
  then show ?thesis
    using assms unfolding written_def Let_def by simp
qed

lemma loop_i_result:
  "loop_i ar c img j i data = Inr data' \<Longrightarrow> 0 \<le> i \<Longrightarrow> 0 \<le> j \<Longrightarrow>
     length data' = length data \<and>
     (\<forall>i'. i \<le> i' \<and> i' < in_width c \<longrightarrow> written ar c img data' j i') \<and>
     (\<forall>n. n < nat ((i + j * in_width c) * 3) \<longrightarrow> data' ! n = data ! n)"
proof (induction ar c img j i data rule: loop_i.induct)
  case (1 ar c img j i data)
  show ?case
  proof (cases "i < in_width c")
    case False
    with "1.prems" show ?thesis by (auto simp: loop_i.simps [of ar c img j i data])
  next
    case True
    with "1.prems"(1) obtain d1 where
      px: "pixel ar c img j i data = Inr d1" and
      rest: "loop_i ar c img j (i + 1) d1 = Inr data'"
      by (subst (asm) loop_i.simps) (auto simp: bnd_eq_Inr)
    have w0: "0 < in_width c" using True "1.prems" by simp
    have idx0: "0 \<le> i + j * in_width c" using "1.prems" w0 by simp
    note p = pixel_written [OF px idx0]
    have ih: "length data' = length d1"
      "\<And>i'. i + 1 \<le> i' \<Longrightarrow> i' < in_width c \<Longrightarrow> written ar c img data' j i'"
      "\<And>n. n < nat ((i + 1 + j * in_width c) * 3) \<Longrightarrow> data' ! n = d1 ! n"
      using "1.IH" [OF True rest] "1.prems" by auto
    have wi: "written ar c img data' j i"
      by (rule written_frame [OF p(2) ih(1) idx0 ih(3)])
    have wall: "written ar c img data' j i'" if "i \<le> i'" "i' < in_width c" for i'
      using that wi ih(2) [of i'] by (cases "i' = i") auto
    have frame: "data' ! n = data ! n" if "n < nat ((i + j * in_width c) * 3)" for n
    proof -
      have "n < nat ((i + 1 + j * in_width c) * 3)" using that by auto
      then show ?thesis using ih(3) [of n] p(3) [OF that] by simp
    qed
    show ?thesis using ih(1) p(1) wall frame by auto
  qed
qed

lemma loop_j_result:
  "loop_j ar c img j data = Inr data' \<Longrightarrow> 0 \<le> j \<Longrightarrow> 0 \<le> in_width c \<Longrightarrow>
     length data' = length data \<and>
     (\<forall>j' i'. j \<le> j' \<and> j' < in_height c \<and> 0 \<le> i' \<and> i' < in_width c \<longrightarrow>
        written ar c img data' j' i') \<and>
     (\<forall>n. n < nat ((j * in_width c) * 3) \<longrightarrow> data' ! n = data ! n)"
proof (induction ar c img j data rule: loop_j.induct)
  case (1 ar c img j data)
  show ?case
  proof (cases "j < in_height c")
    case False
    with "1.prems" show ?thesis by (auto simp: loop_j.simps [of ar c img j data])
  next
    case True
    with "1.prems"(1) obtain d1 where
      row: "loop_i ar c img j 0 data = Inr d1" and
      rest: "loop_j ar c img (j + 1) d1 = Inr data'"
      by (subst (asm) loop_j.simps) (auto simp: bnd_eq_Inr)
    have j0: "0 \<le> j" and j1: "0 \<le> j + 1" and w0: "0 \<le> in_width c"
      using "1.prems" by simp_all
    have r0: "length d1 = length data \<and>
       (\<forall>i'. 0 \<le> i' \<and> i' < in_width c \<longrightarrow> written ar c img d1 j i') \<and>
       (\<forall>n. n < nat ((0 + j * in_width c) * 3) \<longrightarrow> d1 ! n = data ! n)"
      by (rule loop_i_result [OF row _ j0]) simp
    have r: "length d1 = length data"
      "\<And>i'. 0 \<le> i' \<Longrightarrow> i' < in_width c \<Longrightarrow> written ar c img d1 j i'"
      "\<And>n. n < nat ((j * in_width c) * 3) \<Longrightarrow> d1 ! n = data ! n"
      using r0 by simp_all
    have ih0: "length data' = length d1 \<and>
       (\<forall>j' i'. j + 1 \<le> j' \<and> j' < in_height c \<and> 0 \<le> i' \<and> i' < in_width c \<longrightarrow>
          written ar c img data' j' i') \<and>
       (\<forall>n. n < nat (((j + 1) * in_width c) * 3) \<longrightarrow> data' ! n = d1 ! n)"
      by (rule "1.IH" [OF True rest j1 w0])
    have ih: "length data' = length d1"
      "\<And>j' i'. j + 1 \<le> j' \<Longrightarrow> j' < in_height c \<Longrightarrow> 0 \<le> i' \<Longrightarrow> i' < in_width c \<Longrightarrow>
         written ar c img data' j' i'"
      "\<And>n. n < nat (((j + 1) * in_width c) * 3) \<Longrightarrow> data' ! n = d1 ! n"
      using ih0 by simp_all
    have wj: "written ar c img data' j i'" if "0 \<le> i'" "i' < in_width c" for i'
    proof (rule written_frame [OF r(2) [OF that] ih(1)])
      show "0 \<le> i' + j * in_width c" using that j0 by simp
    next
      fix n assume n: "n < nat ((i' + 1 + j * in_width c) * 3)"
      have "(i' + 1 + j * in_width c) * 3 \<le> ((j + 1) * in_width c) * 3"
        using that by (simp add: algebra_simps)
      then have "n < nat (((j + 1) * in_width c) * 3)" using n by linarith
      then show "data' ! n = d1 ! n" by (rule ih(3))
    qed
    have wall: "written ar c img data' j' i'"
      if "j \<le> j'" "j' < in_height c" "0 \<le> i'" "i' < in_width c" for j' i'
    proof (cases "j' = j")
      case True
      then show ?thesis using wj [OF that(3,4)] by simp
    next
      case False
      then have "j + 1 \<le> j'" using that(1) by simp
      then show ?thesis using that by (intro ih(2))
    qed
    have frame: "data' ! n = data ! n" if "n < nat ((j * in_width c) * 3)" for n
    proof -
      have "(j * in_width c) * 3 \<le> ((j + 1) * in_width c) * 3"
        using w0 by (simp add: algebra_simps)
      then have "n < nat (((j + 1) * in_width c) * 3)" using that by linarith
      then show ?thesis using ih(3) [of n] r(3) [OF that] by simp
    qed
    show ?thesis using ih(1) r(1) wall frame by simp
  qed
qed

lemma pixel_total:
  assumes "0 \<le> i" "i < in_width c" "0 \<le> j" "j < in_height c"
    "in_int (3 * (in_width c * in_height c))"
    "in_width c * in_height c \<le> int (length img)"
    "3 * (in_width c * in_height c) \<le> int (length data)"
  shows "\<exists>d1. pixel ar c img j i data = Inr d1"
proof -
  define W where "W = in_width c"
  define H where "H = in_height c"
  define m where "m = j * W"
  define N where "N = W * H"
  have "j * W \<le> (H - 1) * W" using assms unfolding W_def H_def by (intro mult_right_mono) auto
  then have b: "i + m < N" using assms unfolding W_def H_def m_def N_def by (simp add: algebra_simps)
  have m0: "0 \<le> m" using assms unfolding m_def W_def by simp
  have N: "3 * N < 2 ^ 31" "N \<le> int (length img)" "3 * N \<le> int (length data)"
    using assms unfolding N_def W_def H_def in_int_def by auto
  have "in_int m" "in_int (i + m)" "0 \<le> i + m" "i + m < int (length img)"
    "in_int ((i + m) * 3)" "(i + m) * 3 + 2 < int (length data)"
    using b m0 N assms(1) unfolding in_int_def by auto
  then show ?thesis
    unfolding pixel_Inr m_def W_def by blast
qed


lemma pixel_length: "pixel ar c img j i data = Inr d1 \<Longrightarrow> length d1 = length data"
  unfolding pixel_Inr by simp

lemma loop_i_length: "loop_i ar c img j i data = Inr data' \<Longrightarrow> length data' = length data"
proof (induction ar c img j i data rule: loop_i.induct)
  case (1 ar c img j i data)
  show ?case
  proof (cases "i < in_width c")
    case False
    with "1.prems" show ?thesis by (simp add: loop_i.simps [of ar c img j i data])
  next
    case True
    with "1.prems" obtain d1 where
      px: "pixel ar c img j i data = Inr d1" and
      rest: "loop_i ar c img j (i + 1) d1 = Inr data'"
      by (subst (asm) loop_i.simps) (auto simp: bnd_eq_Inr)
    show ?thesis using "1.IH" [OF True rest] pixel_length [OF px] by simp
  qed
qed

lemma loop_j_length: "loop_j ar c img j data = Inr data' \<Longrightarrow> length data' = length data"
proof (induction ar c img j data rule: loop_j.induct)
  case (1 ar c img j data)
  show ?case
  proof (cases "j < in_height c")
    case False
    with "1.prems" show ?thesis by (simp add: loop_j.simps [of ar c img j data])
  next
    case True
    with "1.prems" obtain d1 where
      row: "loop_i ar c img j 0 data = Inr d1" and
      rest: "loop_j ar c img (j + 1) d1 = Inr data'"
      by (subst (asm) loop_j.simps) (auto simp: bnd_eq_Inr)
    show ?thesis using "1.IH" [OF True rest] loop_i_length [OF row] by simp
  qed
qed

lemma loop_i_total:
  "0 \<le> i \<Longrightarrow> 0 \<le> j \<Longrightarrow> j < in_height c \<Longrightarrow>
   in_int (3 * (in_width c * in_height c)) \<Longrightarrow>
   in_width c * in_height c \<le> int (length img) \<Longrightarrow>
   3 * (in_width c * in_height c) \<le> int (length data) \<Longrightarrow>
   \<exists>d'. loop_i ar c img j i data = Inr d'"
proof (induction ar c img j i data rule: loop_i.induct)
  case (1 ar c img j i data)
  show ?case
  proof (cases "i < in_width c")
    case False
    then show ?thesis by (simp add: loop_i.simps [of ar c img j i data])
  next
    case True
    obtain d1 where px: "pixel ar c img j i data = Inr d1"
      using pixel_total [OF "1.prems"(1) True "1.prems"(2-6)] by blast
    have "0 \<le> i + j * in_width c" using "1.prems" True by simp
    then have len: "length d1 = length data" by (rule pixel_written(1) [OF px])
    have "\<exists>d'. loop_i ar c img j (i + 1) d1 = Inr d'"
      using "1.IH" [OF True, of d1] "1.prems" len by simp
    then show ?thesis
      using True px by (simp add: loop_i.simps [of ar c img j i data])
  qed
qed

lemma loop_j_total:
  "0 \<le> j \<Longrightarrow>
   in_int (3 * (in_width c * in_height c)) \<Longrightarrow>
   in_width c * in_height c \<le> int (length img) \<Longrightarrow>
   3 * (in_width c * in_height c) \<le> int (length data) \<Longrightarrow>
   \<exists>d'. loop_j ar c img j data = Inr d'"
proof (induction ar c img j data rule: loop_j.induct)
  case (1 ar c img j data)
  show ?case
  proof (cases "j < in_height c")
    case False
    then show ?thesis by (simp add: loop_j.simps [of ar c img j data])
  next
    case True
    obtain d1 where row: "loop_i ar c img j 0 data = Inr d1"
      using loop_i_total [OF _ "1.prems"(1) True "1.prems"(2-4), of 0 ar] by auto
    have len: "length d1 = length data"
      by (rule loop_i_length [OF row])
    have "\<exists>d'. loop_j ar c img (j + 1) d1 = Inr d'"
      using "1.IH" [OF True, of d1] "1.prems" len by simp
    then show ?thesis
      using True row by (simp add: loop_j.simps [of ar c img j data])
  qed
qed

lemma int_of_uint32_uint32: "in_int x \<Longrightarrow> int_of_uint32 (uint32 x) = x"
proof (cases "0 \<le> x")
  case True
  assume "in_int x"
  with True have "x mod 2 ^ 32 = x" by (simp add: in_int_def)
  with True \<open>in_int x\<close> show ?thesis
    by (simp add: int_of_uint32_def uint32_def in_int_def)
next
  case False
  assume "in_int x"
  have "x mod 2 ^ 32 = (x + 2 ^ 32) mod 2 ^ 32" by simp
  also have "\<dots> = x + 2 ^ 32"
    using False \<open>in_int x\<close> by (intro mod_pos_pos_trivial) (simp_all add: in_int_def)
  finally have "x mod 2 ^ 32 = x + 2 ^ 32" .
  with False \<open>in_int x\<close> show ?thesis
    by (simp add: int_of_uint32_def uint32_def in_int_def)
qed


lemma init_image_Inr:
  "init_image w h = Inr m \<longleftrightarrow>
     in_int (4 * w) \<and> in_int (4 * w * h) \<and> 0 \<le> 4 * w * h \<and>
     m = \<lparr> im_height = uint32 h, im_width = uint32 w,
           im_encoding = ''32FC1'', im_is_bigendian = False,
           im_step = uint32 (4 * (w mod 2 ^ 64) mod 2 ^ 64),
           im_data = replicate (nat (4 * w * h)) 0 \<rparr>"
  unfolding init_image_def bnd_eq_Inr mul_int_Inr resize_Inr by auto

lemma init_point_cloud_Inr:
  "init_point_cloud ar w h = Inr m \<longleftrightarrow>
     in_int (w * 12) \<and> in_int (w * 12 * h) \<and> 0 \<le> w * 12 * h \<and>
     m = \<lparr> pc_height = uint32 h, pc_width = uint32 w,
           pc_fields = [(''x'', 0, 7, 1), (''y'', 4, 7, 1), (''z'', 8, 7, 1)],
           pc_is_bigendian = False, pc_point_step = 12, pc_row_step = uint32 (w * 12),
           pc_data = replicate (nat (w * 12 * h) div 4) (f_zero ar) \<rparr>"
  unfolding init_point_cloud_def bnd_eq_Inr mul_int_Inr resize_Inr by auto

lemma init_Inr:
  assumes "init ar on (Some rf) = Inr (s, e)"
  shows "sized ar rf s" "mIsEnabled s = on" "mAlwaysOn s = on"
    "e = PubCameraInfo (init_camera_info ar (getWidth rf) (getHeight rf) (getFov rf))
           # (if on then [Enable] else [])"
proof -
  obtain im pc where im: "init_image (getWidth rf) (getHeight rf) = Inr im"
    and pc: "init_point_cloud ar (getWidth rf) (getHeight rf) = Inr pc"
    and s: "s = \<lparr> mIsEnabled = on, mAlwaysOn = on, mImageMessage = im,
                  mCameraInfoMessage = init_camera_info ar (getWidth rf) (getHeight rf) (getFov rf),
                  mPointCloudMessage = pc \<rparr>"
    and e: "e = PubCameraInfo (init_camera_info ar (getWidth rf) (getHeight rf) (getFov rf))
           # (if on then [Enable] else [])"
    using assms unfolding init_def Let_def
    by (auto simp: bnd_eq_Inr split: if_splits)
  show "mIsEnabled s = on" "mAlwaysOn s = on" using s by simp_all
  show "e = PubCameraInfo (init_camera_info ar (getWidth rf) (getHeight rf) (getFov rf))
           # (if on then [Enable] else [])" by (rule e)
  define N where "N = getWidth rf * getHeight rf"
  have e12: "getWidth rf * 12 * getHeight rf = 12 * N" and e4: "4 * getWidth rf * getHeight rf = 4 * N"
    by (simp_all add: N_def)
  have pcf: "in_int (getWidth rf * 12)" "in_int (12 * N)" "0 \<le> 12 * N"
    "pc_data pc = replicate (nat (12 * N) div 4) (f_zero ar)"
    using pc unfolding init_point_cloud_Inr e12 by simp_all
  have imf: "length (im_data im) = nat (4 * N)"
    "im_step im = uint32 (4 * (getWidth rf mod 2 ^ 64) mod 2 ^ 64)"
    "\<not> im_is_bigendian im" "im_encoding im = ''32FC1''"
    using im unfolding init_image_Inr e4 by simp_all
  have N: "0 \<le> N" "12 * N < 2 ^ 31" using pcf(2,3) by (simp_all add: in_int_def)
  have "nat (12 * N) div 4 = nat (3 * N)" using N(1) by (simp add: nat_div_distrib')
  then have "length (pc_data pc) = nat (3 * N)" using pcf(4) by simp
  then show "sized ar rf s"
    using pcf(1) N imf unfolding sized_def s N_def by simp
qed

lemma sized_dims:
  assumes "sized ar rf s"
  shows "in_int (getWidth rf)" "getWidth rf \<noteq> 0 \<Longrightarrow> in_int (getHeight rf)"
proof -
  define w where "w = getWidth rf"
  define h where "h = getHeight rf"
  have f: "in_int (w * 12)" "0 \<le> w * h" "12 * (w * h) < 2 ^ 31"
    using assms unfolding sized_def w_def h_def by simp_all
  show "in_int (getWidth rf)" using f(1) unfolding in_int_def w_def by simp
  show "in_int (getHeight rf)" if "getWidth rf \<noteq> 0"
  proof -
    have "\<bar>h\<bar> \<le> \<bar>w\<bar> * \<bar>h\<bar>" using that unfolding w_def
      by (intro mult_le_cancel_right1 [THEN iffD2]) auto
    also have "\<dots> = w * h" using f(2) by (simp add: abs_mult [symmetric])
    finally have "\<bar>h\<bar> \<le> w * h" .
    moreover define N where "N = w * h"
    ultimately have "\<bar>h\<bar> \<le> N" "12 * N < 2 ^ 31" using f(3) by simp_all
    then show ?thesis unfolding in_int_def h_def by linarith
  qed
qed

lemma sized_intrinsics:
  assumes "sized ar rf s"
  shows "in_width (read_intrinsics ar (mCameraInfoMessage s)) = getWidth rf"
    "getWidth rf \<noteq> 0 \<Longrightarrow> in_height (read_intrinsics ar (mCameraInfoMessage s)) = getHeight rf"
    "in_cx (read_intrinsics ar (mCameraInfoMessage s)) =
       f_of_d ar (d_div ar (d_of_int ar (getWidth rf)) (d_of_int ar 2))"
    "in_cy (read_intrinsics ar (mCameraInfoMessage s)) =
       f_of_d ar (d_div ar (d_of_int ar (getHeight rf)) (d_of_int ar 2))"
    "in_fx (read_intrinsics ar (mCameraInfoMessage s)) =
       f_of_d ar (focalLengthX ar (getWidth rf) (getFov rf))"
    "in_fy (read_intrinsics ar (mCameraInfoMessage s)) =
       f_of_d ar (focalLengthY ar (getHeight rf) (getFov rf))"
proof -
  have ci: "mCameraInfoMessage s = init_camera_info ar (getWidth rf) (getHeight rf) (getFov rf)"
    using assms by (simp add: sized_def)
  show "in_width (read_intrinsics ar (mCameraInfoMessage s)) = getWidth rf"
    using sized_dims(1) [OF assms]
    by (simp add: ci read_intrinsics_def init_camera_info_def Let_def int_of_uint32_uint32)
  show "in_height (read_intrinsics ar (mCameraInfoMessage s)) = getHeight rf"
    if "getWidth rf \<noteq> 0"
    using sized_dims(2) [OF assms that]
    by (simp add: ci read_intrinsics_def init_camera_info_def Let_def int_of_uint32_uint32)
  show "in_cx (read_intrinsics ar (mCameraInfoMessage s)) =
       f_of_d ar (d_div ar (d_of_int ar (getWidth rf)) (d_of_int ar 2))"
    "in_cy (read_intrinsics ar (mCameraInfoMessage s)) =
       f_of_d ar (d_div ar (d_of_int ar (getHeight rf)) (d_of_int ar 2))"
    "in_fx (read_intrinsics ar (mCameraInfoMessage s)) =
       f_of_d ar (focalLengthX ar (getWidth rf) (getFov rf))"
    "in_fy (read_intrinsics ar (mCameraInfoMessage s)) =
       f_of_d ar (focalLengthY ar (getHeight rf) (getFov rf))"
    by (simp_all add: ci read_intrinsics_def init_camera_info_def Let_def)
qed

lemma sized_area:
  assumes "sized ar rf s"
  shows "in_width (read_intrinsics ar (mCameraInfoMessage s)) *
         in_height (read_intrinsics ar (mCameraInfoMessage s)) = getWidth rf * getHeight rf"
  using sized_intrinsics(1,2) [OF assms] by (cases "getWidth rf = 0") simp_all

lemma publishImage_None: "publishImage repr s None = Inr (s, [])"
  by (simp add: publishImage_def)

lemma publishImage_Some:
  "publishImage repr s (Some img) = Inr (s', out) \<longleftrightarrow>
     length (im_data (mImageMessage s)) \<le> length (concat (map repr img)) \<and>
     s' = s\<lparr>mImageMessage := (mImageMessage s)
            \<lparr>im_data := take (length (im_data (mImageMessage s))) (concat (map repr img))\<rparr>\<rparr> \<and>
     out = [PubImage (mImageMessage s')]"
  unfolding publishImage_def memcpy_from_def Let_def
  by (auto simp: bnd_eq_Inr)

lemma publishPointCloud_None: "publishPointCloud ar s None = Inr (s, [])"
  by (simp add: publishPointCloud_def)

lemma publishPointCloud_Some:
  "publishPointCloud ar s (Some img) = Inr (s', out) \<longleftrightarrow>
     (\<exists>data. loop_j ar (read_intrinsics ar (mCameraInfoMessage s)) img 0
                (pc_data (mPointCloudMessage s)) = Inr data \<and>
        s' = s\<lparr>mPointCloudMessage := (mPointCloudMessage s)\<lparr>pc_data := data\<rparr>\<rparr> \<and>
        out = [PubPointCloud (mPointCloudMessage s')])"
  unfolding publishPointCloud_def Let_def
  by (auto simp: bnd_eq_Inr)

lemma sized_publishImage:
  assumes "publishImage repr s r = Inr (s', out)"
  shows "mIsEnabled s' = mIsEnabled s" "mAlwaysOn s' = mAlwaysOn s"
    "mCameraInfoMessage s' = mCameraInfoMessage s" "mPointCloudMessage s' = mPointCloudMessage s"
    "sized ar rf s \<Longrightarrow> sized ar rf s'" "commands out = []"
  using assms
  by (cases r; simp add: publishImage_None publishImage_Some sized_def commands_def)+

lemma sized_publishPointCloud:
  assumes "publishPointCloud ar s r = Inr (s', out)"
  shows "mIsEnabled s' = mIsEnabled s" "mAlwaysOn s' = mAlwaysOn s"
    "mCameraInfoMessage s' = mCameraInfoMessage s" "mImageMessage s' = mImageMessage s"
    "sized ar rf s \<Longrightarrow> sized ar rf s'" "commands out = []"
  using assms
  by (cases r; auto simp: publishPointCloud_None publishPointCloud_Some sized_def commands_def
        dest: loop_j_length)+

lemma publish_Inr:
  "publish ar repr s r = Inr (s', out) \<longleftrightarrow>
     (\<exists>s1 out1 out2. publishImage repr s r = Inr (s1, out1) \<and>
        publishPointCloud ar s1 r = Inr (s', out2) \<and> out = out1 @ out2)"
  unfolding publish_def by (auto simp: bnd_eq_Inr)

lemma sized_publish:
  assumes "publish ar repr s r = Inr (s', out)"
  shows "mIsEnabled s' = mIsEnabled s" "mAlwaysOn s' = mAlwaysOn s"
    "mCameraInfoMessage s' = mCameraInfoMessage s"
    "sized ar rf s \<Longrightarrow> sized ar rf s'" "commands out = []"
proof -
  from assms obtain s1 out1 out2 where
    a: "publishImage repr s r = Inr (s1, out1)" and
    b: "publishPointCloud ar s1 r = Inr (s', out2)" and o: "out = out1 @ out2"
    unfolding publish_Inr by blast
  show "mIsEnabled s' = mIsEnabled s" "mAlwaysOn s' = mAlwaysOn s"
    "mCameraInfoMessage s' = mCameraInfoMessage s"
    using sized_publishImage(1-3) [OF a] sized_publishPointCloud(1-3) [OF b] by simp_all
  show "sized ar rf s'" if "sized ar rf s"
    using sized_publishImage(5) [OF a that] sized_publishPointCloud(5) [OF b] by simp
  show "commands out = []"
    using sized_publishImage(6) [OF a] sized_publishPointCloud(6) [OF b] o
    by (simp add: commands_def)
qed

lemma publish_None: "publish ar repr s None = Inr (s, [])"
  by (simp add: publish_def publishImage_None publishPointCloud_None)

lemma sized_emit:
  assumes "emit ar repr s t = Inr (s1, out1)"
  shows "mIsEnabled s1 = mIsEnabled s" "mAlwaysOn s1 = mAlwaysOn s"
    "mCameraInfoMessage s1 = mCameraInfoMessage s"
    "sized ar rf s \<Longrightarrow> sized ar rf s1" "commands out1 = []"
proof -
  show "mIsEnabled s1 = mIsEnabled s" "mAlwaysOn s1 = mAlwaysOn s"
    "mCameraInfoMessage s1 = mCameraInfoMessage s" "commands out1 = []"
    using assms sized_publish(1,2,3,5) [of ar repr s "getRangeImage t" s1 out1]
    by (auto simp: emit_def commands_def split: if_splits)
  show "sized ar rf s1" if "sized ar rf s"
    using assms that sized_publish(4) [of ar repr s "getRangeImage t" s1 out1 rf]
    by (auto simp: emit_def split: if_splits)
qed

lemma step_Inr:
  "step ar repr s t = Inr (s', out) \<longleftrightarrow>
     (if \<not> preStep t then s' = s \<and> out = []
      else \<exists>s1 out1. emit ar repr s t = Inr (s1, out1) \<and>
             (if toggles s t
              then s' = s1\<lparr>mIsEnabled := 0 < get_subscription_count t\<rparr> \<and>
                   out = out1 @ [if 0 < get_subscription_count t then Enable else Disable]
              else s' = s1 \<and> out = out1))"
proof (cases "preStep t")
  case False
  then show ?thesis by (auto simp: step_def)
next
  case True
  show ?thesis
  proof
    assume st: "step ar repr s t = Inr (s', out)"
    then obtain s1 out1 where e: "emit ar repr s t = Inr (s1, out1)"
      using True unfolding step_def emit_def by (auto simp: bnd_eq_Inr)
    note k = sized_emit(1,2) [OF e]
    have "if toggles s t
              then s' = s1\<lparr>mIsEnabled := 0 < get_subscription_count t\<rparr> \<and>
                   out = out1 @ [if 0 < get_subscription_count t then Enable else Disable]
              else s' = s1 \<and> out = out1"
      using st True e k unfolding step_def emit_def [symmetric] toggles_def Let_def
      by (auto split: if_splits)
    with e True show "if \<not> preStep t then s' = s \<and> out = []
      else \<exists>s1 out1. emit ar repr s t = Inr (s1, out1) \<and>
             (if toggles s t
              then s' = s1\<lparr>mIsEnabled := 0 < get_subscription_count t\<rparr> \<and>
                   out = out1 @ [if 0 < get_subscription_count t then Enable else Disable]
              else s' = s1 \<and> out = out1)" by auto
  next
    assume "if \<not> preStep t then s' = s \<and> out = []
      else \<exists>s1 out1. emit ar repr s t = Inr (s1, out1) \<and>
             (if toggles s t
              then s' = s1\<lparr>mIsEnabled := 0 < get_subscription_count t\<rparr> \<and>
                   out = out1 @ [if 0 < get_subscription_count t then Enable else Disable]
              else s' = s1 \<and> out = out1)"
    with True obtain s1 out1 where e: "emit ar repr s t = Inr (s1, out1)" and
      r: "if toggles s t
              then s' = s1\<lparr>mIsEnabled := 0 < get_subscription_count t\<rparr> \<and>
                   out = out1 @ [if 0 < get_subscription_count t then Enable else Disable]
              else s' = s1 \<and> out = out1" by auto
    note k = sized_emit(1,2) [OF e]
    show "step ar repr s t = Inr (s', out)"
      using True e r k unfolding step_def emit_def [symmetric] toggles_def Let_def
      by (auto split: if_splits)
  qed
qed

lemma step_facts:
  assumes "step ar repr s t = Inr (s', out)"
  shows "mAlwaysOn s' = mAlwaysOn s"
    "mCameraInfoMessage s' = mCameraInfoMessage s"
    "sized ar rf s \<Longrightarrow> sized ar rf s'"
    "mIsEnabled s' =
       (if preStep t \<and> \<not> mAlwaysOn s then 0 < get_subscription_count t else mIsEnabled s)"
    "commands out =
       (if toggles s t then [if 0 < get_subscription_count t then Enable else Disable] else [])"
proof -
  have "\<exists>s1 out1.
      mIsEnabled s1 = mIsEnabled s \<and> mAlwaysOn s1 = mAlwaysOn s \<and>
      mCameraInfoMessage s1 = mCameraInfoMessage s \<and>
      (sized ar rf s \<longrightarrow> sized ar rf s1) \<and> commands out1 = [] \<and>
      (if toggles s t
        then s' = s1\<lparr>mIsEnabled := 0 < get_subscription_count t\<rparr> \<and>
             out = out1 @ [if 0 < get_subscription_count t then Enable else Disable]
        else s' = s1 \<and> out = out1)"
  proof (cases "preStep t")
    case False
    with assms have "s' = s" "out = []" "\<not> toggles s t"
      by (simp_all add: step_Inr toggles_def)
    then show ?thesis by (intro exI [of _ s] exI [of _ "[]"]) (simp add: commands_def)
  next
    case True
    with assms obtain s1 out1 where e: "emit ar repr s t = Inr (s1, out1)" and
      r: "if toggles s t
          then s' = s1\<lparr>mIsEnabled := 0 < get_subscription_count t\<rparr> \<and>
               out = out1 @ [if 0 < get_subscription_count t then Enable else Disable]
          else s' = s1 \<and> out = out1"
      by (auto simp: step_Inr)
    show ?thesis
      using r sized_emit(1,2,3,5) [OF e] sized_emit(4) [OF e, of rf]
      by (intro exI [of _ s1] exI [of _ out1]) simp
  qed
  then obtain s1 out1 where
    k: "mIsEnabled s1 = mIsEnabled s" "mAlwaysOn s1 = mAlwaysOn s"
      "mCameraInfoMessage s1 = mCameraInfoMessage s"
      "sized ar rf s \<longrightarrow> sized ar rf s1" "commands out1 = []" and
    r: "if toggles s t
        then s' = s1\<lparr>mIsEnabled := 0 < get_subscription_count t\<rparr> \<and>
             out = out1 @ [if 0 < get_subscription_count t then Enable else Disable]
        else s' = s1 \<and> out = out1"
    by blast
  show "mAlwaysOn s' = mAlwaysOn s" "mCameraInfoMessage s' = mCameraInfoMessage s"
    using r k(2,3) by (auto split: if_splits)
  show "sized ar rf s'" if "sized ar rf s"
    using r k(4) that by (auto simp: sized_def split: if_splits)
  show "mIsEnabled s' =
       (if preStep t \<and> \<not> mAlwaysOn s then 0 < get_subscription_count t else mIsEnabled s)"
    using r k(1) by (auto simp: toggles_def split: if_splits)
  show "commands out =
       (if toggles s t then [if 0 < get_subscription_count t then Enable else Disable] else [])"
    using r k(5) by (auto simp: commands_def split: if_splits)
qed

lemma run_Cons_Inr:
  "run ar repr s (t # ts) = Inr (s', outs) \<longleftrightarrow>
     (\<exists>s1 out outs'. step ar repr s t = Inr (s1, out) \<and>
        run ar repr s1 ts = Inr (s', outs') \<and> outs = out # outs')"
  by (auto simp: bnd_eq_Inr)

lemma run_facts:
  "run ar repr s ts = Inr (s', outs) \<Longrightarrow>
     mAlwaysOn s' = mAlwaysOn s \<and> mCameraInfoMessage s' = mCameraInfoMessage s \<and>
     (sized ar rf s \<longrightarrow> sized ar rf s') \<and> length outs = length ts"
proof (induction ts arbitrary: s outs)
  case Nil
  then show ?case by simp
next
  case (Cons t ts)
  from Cons.prems obtain s1 out outs' where
    st: "step ar repr s t = Inr (s1, out)" and
    rn: "run ar repr s1 ts = Inr (s', outs')" and o: "outs = out # outs'"
    unfolding run_Cons_Inr by blast
  show ?case
    using Cons.IH [OF rn] step_facts(1,2) [OF st] step_facts(3) [OF st, of rf] o by simp
qed

lemma sensor_after_append:
  "sensor_after b (xs @ ys) = sensor_after (sensor_after b xs) ys"
  by (induction b xs rule: sensor_after.induct) simp_all

lemma sensor_after_quiet: "commands out = [] \<Longrightarrow> sensor_after b out = b"
  by (induction b out rule: sensor_after.induct) (simp_all add: commands_def)

lemma emit_cases:
  assumes "emit ar repr s t = Inr (s1, out1)"
  shows "\<not> (mIsEnabled s \<and> getRangeImage t \<noteq> None) \<Longrightarrow> s1 = s \<and> out1 = []"
    "mIsEnabled s \<Longrightarrow> getRangeImage t = Some img \<Longrightarrow>
       out1 = [PubImage (mImageMessage s1), PubPointCloud (mPointCloudMessage s1)] \<and>
       length (im_data (mImageMessage s)) \<le> length (concat (map repr img)) \<and>
       im_data (mImageMessage s1) =
         take (length (im_data (mImageMessage s))) (concat (map repr img)) \<and>
       loop_j ar (read_intrinsics ar (mCameraInfoMessage s)) img 0
         (pc_data (mPointCloudMessage s)) = Inr (pc_data (mPointCloudMessage s1))"
proof -
  show "s1 = s \<and> out1 = []" if "\<not> (mIsEnabled s \<and> getRangeImage t \<noteq> None)"
    using assms that by (auto simp: emit_def publish_None split: if_splits)
  show "out1 = [PubImage (mImageMessage s1), PubPointCloud (mPointCloudMessage s1)] \<and>
       length (im_data (mImageMessage s)) \<le> length (concat (map repr img)) \<and>
       im_data (mImageMessage s1) =
         take (length (im_data (mImageMessage s))) (concat (map repr img)) \<and>
       loop_j ar (read_intrinsics ar (mCameraInfoMessage s)) img 0
         (pc_data (mPointCloudMessage s)) = Inr (pc_data (mPointCloudMessage s1))"
    if "mIsEnabled s" "getRangeImage t = Some img"
  proof -
    from assms that have "publish ar repr s (Some img) = Inr (s1, out1)"
      by (simp add: emit_def)
    then obtain s0 o1 o2 where
      a: "publishImage repr s (Some img) = Inr (s0, o1)" and
      b: "publishPointCloud ar s0 (Some img) = Inr (s1, o2)" and o: "out1 = o1 @ o2"
      unfolding publish_Inr by blast
    from a have a': "length (im_data (mImageMessage s)) \<le> length (concat (map repr img))"
      "s0 = s\<lparr>mImageMessage := (mImageMessage s)
            \<lparr>im_data := take (length (im_data (mImageMessage s))) (concat (map repr img))\<rparr>\<rparr>"
      "o1 = [PubImage (mImageMessage s0)]"
      unfolding publishImage_Some by simp_all
    from b obtain data where
      l: "loop_j ar (read_intrinsics ar (mCameraInfoMessage s0)) img 0
                (pc_data (mPointCloudMessage s0)) = Inr data" and
      s1: "s1 = s0\<lparr>mPointCloudMessage := (mPointCloudMessage s0)\<lparr>pc_data := data\<rparr>\<rparr>" and
      o2: "o2 = [PubPointCloud (mPointCloudMessage s1)]"
      unfolding publishPointCloud_Some by blast
    show ?thesis
      using a' l o o2 unfolding s1 by simp
  qed
qed

lemma step_out:
  assumes "step ar repr s t = Inr (s', out)"
  shows "\<exists>out1. commands out1 = [] \<and>
           out = out1 @ (if toggles s t
                         then [if 0 < get_subscription_count t then Enable else Disable]
                         else [])"
proof (cases "preStep t")
  case False
  with assms have "out = []" "\<not> toggles s t" by (simp_all add: step_Inr toggles_def)
  then show ?thesis by (simp add: commands_def)
next
  case True
  with assms obtain s1 out1 where e: "emit ar repr s t = Inr (s1, out1)" and
    r: "if toggles s t
        then s' = s1\<lparr>mIsEnabled := 0 < get_subscription_count t\<rparr> \<and>
             out = out1 @ [if 0 < get_subscription_count t then Enable else Disable]
        else s' = s1 \<and> out = out1"
    by (auto simp: step_Inr)
  show ?thesis
    using r sized_emit(5) [OF e] by (intro exI [of _ out1]) (simp split: if_splits)
qed

lemma step_sensor:
  assumes "step ar repr s t = Inr (s', out)"
  shows "sensor_after (mIsEnabled s) out = mIsEnabled s'"
proof -
  from step_out [OF assms] obtain out1 where q: "commands out1 = []" and
    o: "out = out1 @ (if toggles s t
                      then [if 0 < get_subscription_count t then Enable else Disable]
                      else [])" by blast
  have "sensor_after (mIsEnabled s) out1 = mIsEnabled s" by (rule sensor_after_quiet [OF q])
  then show ?thesis
    unfolding o sensor_after_append step_facts(4) [OF assms]
    by (simp add: toggles_def)
qed

lemma run_sensor:
  "run ar repr s ts = Inr (s', outs) \<Longrightarrow> sensor_after (mIsEnabled s) (concat outs) = mIsEnabled s'"
proof (induction ts arbitrary: s outs)
  case Nil
  then show ?case by simp
next
  case (Cons t ts)
  from Cons.prems obtain s1 out outs' where
    st: "step ar repr s t = Inr (s1, out)" and
    rn: "run ar repr s1 ts = Inr (s', outs')" and o: "outs = out # outs'"
    unfolding run_Cons_Inr by blast
  show ?case
    unfolding o using Cons.IH [OF rn] step_sensor [OF st]
    by (simp add: sensor_after_append)
qed

lemma run_alwaysOn:
  "run ar repr s ts = Inr (s', outs) \<Longrightarrow> mAlwaysOn s \<Longrightarrow>
     mIsEnabled s' = mIsEnabled s \<and> (\<forall>out\<in>set outs. commands out = [])"
proof (induction ts arbitrary: s outs)
  case Nil
  then show ?case by simp
next
  case (Cons t ts)
  from Cons.prems obtain s1 out outs' where
    st: "step ar repr s t = Inr (s1, out)" and
    rn: "run ar repr s1 ts = Inr (s', outs')" and o: "outs = out # outs'"
    unfolding run_Cons_Inr by blast
  have "mAlwaysOn s1" using step_facts(1) [OF st] Cons.prems(2) by simp
  from Cons.IH [OF rn this] show ?case
    unfolding o using step_facts(4,5) [OF st] Cons.prems(2)
    by (simp add: toggles_def)
qed

text \<open>
  C8. When always-on is set, \<^verbatim>\<open>init\<close> sends exactly one sensor command, an enable, and
  leaves the plugin enabled; after that no tick of any run sends a sensor command and the
  plugin stays enabled, whatever the subscription counts are. When always-on is not set,
  \<^verbatim>\<open>init\<close> sends no sensor command and leaves the plugin disabled.
\<close>

theorem C8_always_on_commands:
  assumes "init ar on (Some rf) = Inr (s0, e0)"
  shows "(on \<longrightarrow> commands e0 = [Enable] \<and> mIsEnabled s0 \<and>
            (\<forall>ts s outs. run ar repr s0 ts = Inr (s, outs) \<longrightarrow>
               mIsEnabled s \<and> (\<forall>out\<in>set outs. commands out = []))) \<and>
         (\<not> on \<longrightarrow> commands e0 = [] \<and> \<not> mIsEnabled s0)"
proof -
  note i = init_Inr(2-4) [OF assms]
  have "mIsEnabled s \<and> (\<forall>out\<in>set outs. commands out = [])"
    if "on" "run ar repr s0 ts = Inr (s, outs)" for ts s outs
    using run_alwaysOn [OF that(2)] i(1,2) that(1) by simp
  then show ?thesis using i by (auto simp: commands_def)
qed

text \<open>
  C9. The enabled flag mirrors the sensor. Starting from a sensor that is off, after
  \<^verbatim>\<open>init\<close> and any run of ticks the flag \<open>mIsEnabled\<close> equals the state the commands
  sent so far leave the sensor in. On every tick from such a state, the commands sent are
  exactly one enable when the flag goes from false to true, exactly one disable when it
  goes from true to false, and none when it keeps its value; \<^verbatim>\<open>init\<close> itself sends
  one enable when it sets the flag and nothing otherwise.
\<close>

theorem C9_flag_mirrors_sensor:
  assumes "init ar on (Some rf) = Inr (s0, e0)" and "run ar repr s0 ts = Inr (s, outs)"
  shows "mIsEnabled s = sensor_after False (e0 @ concat outs) \<and>
         commands e0 = (if mIsEnabled s0 then [Enable] else []) \<and>
         (\<forall>t s' out. step ar repr s t = Inr (s', out) \<longrightarrow>
            commands out =
              (if \<not> mIsEnabled s \<and> mIsEnabled s' then [Enable]
               else if mIsEnabled s \<and> \<not> mIsEnabled s' then [Disable] else []))"
proof -
  note i = init_Inr(2-4) [OF assms(1)]
  have "sensor_after False e0 = mIsEnabled s0" using i by simp
  then have a: "mIsEnabled s = sensor_after False (e0 @ concat outs)"
    using run_sensor [OF assms(2)] by (simp add: sensor_after_append)
  have b: "commands e0 = (if mIsEnabled s0 then [Enable] else [])"
    using i by (simp add: commands_def)
  have c: "commands out =
              (if \<not> mIsEnabled s \<and> mIsEnabled s' then [Enable]
               else if mIsEnabled s \<and> \<not> mIsEnabled s' then [Disable] else [])"
    if "step ar repr s t = Inr (s', out)" for t s' out
    using step_facts(4,5) [OF that] by (auto simp: toggles_def)
  show ?thesis using a b c by blast
qed

text \<open>
  C3. Sensor commands are edge-triggered. With always-on off, five ticks that
  \<^verbatim>\<open>preStep\<close> lets through and whose subscription counts are 0, 0, 3, 3, 0 send exactly
  two commands: an enable on the third tick and a disable on the fifth. In general a tick
  sends at most one command, sends none when the demand (a positive subscription count)
  equals the enabled flag, and every command it sends goes with a change of the flag.
\<close>

theorem C3_edge_triggered:
  assumes "init ar False (Some rf) = Inr (s0, e0)"
    and "map get_subscription_count ts = [0, 0, 3, 3, 0]"
    and "\<forall>t\<in>set ts. preStep t"
    and "run ar repr s0 ts = Inr (s, outs)"
  shows "map commands outs = [[], [], [Enable], [], [Disable]] \<and>
         (\<forall>s1 t s2 out. step ar repr s1 t = Inr (s2, out) \<longrightarrow>
            length (commands out) \<le> 1 \<and>
            ((0 < get_subscription_count t) = mIsEnabled s1 \<longrightarrow> commands out = []) \<and>
            (commands out \<noteq> [] \<longrightarrow> mIsEnabled s2 \<noteq> mIsEnabled s1))"
proof -
  from assms(2) obtain t1 t2 t3 t4 t5 where ts: "ts = [t1, t2, t3, t4, t5]" and
    n: "get_subscription_count t1 = 0" "get_subscription_count t2 = 0"
       "get_subscription_count t3 = 3" "get_subscription_count t4 = 3"
       "get_subscription_count t5 = 0"
    by (auto simp: map_eq_Cons_conv)
  have p: "preStep t1" "preStep t2" "preStep t3" "preStep t4" "preStep t5"
    using assms(3) ts by simp_all
  from assms(4) obtain s1 s2 s3 s4 o1 o2 o3 o4 o5 where
    st: "step ar repr s0 t1 = Inr (s1, o1)" "step ar repr s1 t2 = Inr (s2, o2)"
        "step ar repr s2 t3 = Inr (s3, o3)" "step ar repr s3 t4 = Inr (s4, o4)"
        "step ar repr s4 t5 = Inr (s, o5)" and
    outs: "outs = [o1, o2, o3, o4, o5]"
    unfolding ts run_Cons_Inr by auto
  note i = init_Inr(2,3) [OF assms(1)]
  have a: "\<not> mAlwaysOn s1" "\<not> mAlwaysOn s2" "\<not> mAlwaysOn s3" "\<not> mAlwaysOn s4"
    using st(1-4) [THEN step_facts(1)] i(2) by simp_all
  have e1: "\<not> mIsEnabled s1" using step_facts(4) [OF st(1)] i n(1) by simp
  have e2: "\<not> mIsEnabled s2" using step_facts(4) [OF st(2)] e1 n(2) by simp
  have e3: "mIsEnabled s3" using step_facts(4) [OF st(3)] a(2) p(3) n(3) by simp
  have e4: "mIsEnabled s4" using step_facts(4) [OF st(4)] a(3) p(4) n(4) by simp
  have c: "commands o1 = []" "commands o2 = []" "commands o3 = [Enable]"
    "commands o4 = []" "commands o5 = [Disable]"
    using st [THEN step_facts(5)] i a e1 e2 e3 e4 n p by (simp_all add: toggles_def)
  have g: "length (commands out) \<le> 1 \<and>
            ((0 < get_subscription_count t) = mIsEnabled x \<longrightarrow> commands out = []) \<and>
            (commands out \<noteq> [] \<longrightarrow> mIsEnabled y \<noteq> mIsEnabled x)"
    if "step ar repr x t = Inr (y, out)" for x t y out
    using step_facts(4,5) [OF that] by (auto simp: toggles_def)
  show ?thesis unfolding outs using c g by simp
qed

lemma length_concat_repr:
  "\<forall>x. length (repr x) = n \<Longrightarrow> length (concat (map repr img)) = n * length img"
  by (induction img) simp_all

lemma publishImage_total:
  assumes "sized ar rf s" "length img = nat (getWidth rf * getHeight rf)"
    "\<forall>x. length (repr x) = 4"
  shows "\<exists>s'. publishImage repr s (Some img) = Inr (s', [PubImage (mImageMessage s')]) \<and>
           im_data (mImageMessage s') = concat (map repr img)"
proof -
  have l: "length (im_data (mImageMessage s)) = nat (4 * (getWidth rf * getHeight rf))"
    and n: "0 \<le> getWidth rf * getHeight rf"
    using assms(1) by (simp_all add: sized_def)
  have c: "length (concat (map repr img)) = 4 * length img"
    by (rule length_concat_repr) (rule assms(3))
  have e: "length (im_data (mImageMessage s)) = length (concat (map repr img))"
    unfolding l c assms(2) using n by (simp add: nat_mult_distrib)
  show ?thesis
    unfolding publishImage_Some using e by simp
qed

lemma publishPointCloud_total:
  assumes "sized ar rf s" "length img = nat (getWidth rf * getHeight rf)"
  shows "\<exists>s'. publishPointCloud ar s (Some img) = Inr (s', [PubPointCloud (mPointCloudMessage s')])"
proof -
  define c where "c = read_intrinsics ar (mCameraInfoMessage s)"
  define N where "N = getWidth rf * getHeight rf"
  have a: "in_width c * in_height c = N"
    unfolding c_def N_def by (rule sized_area [OF assms(1)])
  have f: "0 \<le> N" "12 * N < 2 ^ 31"
    "length (pc_data (mPointCloudMessage s)) = nat (3 * N)"
    using assms(1) by (simp_all add: sized_def N_def)
  have "\<exists>d'. loop_j ar c img 0 (pc_data (mPointCloudMessage s)) = Inr d'"
  proof (rule loop_j_total)
    show "in_int (3 * (in_width c * in_height c))" unfolding a in_int_def using f by simp
    show "in_width c * in_height c \<le> int (length img)"
      unfolding a assms(2) N_def [symmetric] using f by simp
    show "3 * (in_width c * in_height c) \<le> int (length (pc_data (mPointCloudMessage s)))"
      unfolding a f(3) using f(1) by simp
  qed simp
  then show ?thesis
    unfolding publishPointCloud_Some c_def by auto
qed

lemma emit_total:
  assumes "sized ar rf s" "tick_ok rf t" "\<forall>x. length (repr x) = 4"
  shows "\<exists>r. emit ar repr s t = Inr r"
proof (cases "mIsEnabled s")
  case False
  then show ?thesis by (simp add: emit_def)
next
  case True
  show ?thesis
  proof (cases "getRangeImage t")
    case None
    with True show ?thesis by (simp add: emit_def publish_None)
  next
    case (Some img)
    with assms(2) have l: "length img = nat (getWidth rf * getHeight rf)"
      by (simp add: tick_ok_def)
    from publishImage_total [OF assms(1) l assms(3)] obtain s1 where
      a: "publishImage repr s (Some img) = Inr (s1, [PubImage (mImageMessage s1)])" by blast
    have "sized ar rf s1" by (rule sized_publishImage(5) [OF a assms(1)])
    from publishPointCloud_total [OF this l] obtain s2 where
      "publishPointCloud ar s1 (Some img) = Inr (s2, [PubPointCloud (mPointCloudMessage s2)])"
      by blast
    with a True Some show ?thesis by (simp add: emit_def publish_def)
  qed
qed

lemma step_total:
  assumes "sized ar rf s" "tick_ok rf t" "\<forall>x. length (repr x) = 4"
  shows "\<exists>r. step ar repr s t = Inr r"
proof -
  from emit_total [OF assms] obtain r where "emit ar repr s t = Inr r" by blast
  then obtain s1 out1 where e: "emit ar repr s t = Inr (s1, out1)" by (cases r) simp
  show ?thesis
  proof (cases "preStep t")
    case False
    then show ?thesis by (simp add: step_Inr)
  next
    case True
    show ?thesis
    proof (cases "toggles s t")
      case True
      have "step ar repr s t = Inr (s1\<lparr>mIsEnabled := 0 < get_subscription_count t\<rparr>,
              out1 @ [if 0 < get_subscription_count t then Enable else Disable])"
        unfolding step_Inr using \<open>preStep t\<close> True e by simp
      then show ?thesis by blast
    next
      case False
      have "step ar repr s t = Inr (s1, out1)"
        unfolding step_Inr using \<open>preStep t\<close> False e by simp
      then show ?thesis by blast
    qed
  qed
qed

lemma run_total:
  "sized ar rf s \<Longrightarrow> list_all (tick_ok rf) ts \<Longrightarrow> \<forall>x. length (repr x) = 4 \<Longrightarrow>
     \<exists>r. run ar repr s ts = Inr r"
proof (induction ts arbitrary: s)
  case Nil
  then show ?case by simp
next
  case (Cons t ts)
  have t: "tick_ok rf t" and ts: "list_all (tick_ok rf) ts" using Cons.prems(2) by simp_all
  from step_total [OF Cons.prems(1) t Cons.prems(3)] obtain r where "step ar repr s t = Inr r"
    by blast
  then obtain s1 out where st: "step ar repr s t = Inr (s1, out)" by (cases r) simp
  have "sized ar rf s1" by (rule step_facts(3) [OF st Cons.prems(1)])
  from Cons.IH [OF this ts Cons.prems(3)] obtain r' where "run ar repr s1 ts = Inr r'" by blast
  then obtain s' outs where "run ar repr s1 ts = Inr (s', outs)" by (cases r') simp
  with st have "run ar repr s (t # ts) = Inr (s', out # outs)" unfolding run_Cons_Inr by blast
  then show ?case by blast
qed

lemma length_le_bytes: "\<forall>x. length (le_bytes x) = 4"
  by (simp add: le_bytes_def)

lemma init_total:
  assumes "in_int (getWidth rf * 12)" "0 \<le> getWidth rf * getHeight rf"
    "12 * (getWidth rf * getHeight rf) < 2 ^ 31"
  shows "\<exists>r. init ar on (Some rf) = Inr r"
proof -
  define N where "N = getWidth rf * getHeight rf"
  have e: "4 * getWidth rf * getHeight rf = 4 * N" "getWidth rf * 12 * getHeight rf = 12 * N"
    by (simp_all add: N_def)
  have N: "0 \<le> N" "12 * N < 2 ^ 31" using assms by (simp_all add: N_def)
  have w: "in_int (4 * getWidth rf)" using assms(1) by (simp add: in_int_def)
  have "\<exists>m. init_image (getWidth rf) (getHeight rf) = Inr m"
    unfolding init_image_Inr e using N w by (simp add: in_int_def)
  moreover have "\<exists>m. init_point_cloud ar (getWidth rf) (getHeight rf) = Inr m"
    unfolding init_point_cloud_Inr e using N assms(1) by (simp add: in_int_def)
  ultimately show ?thesis
    unfolding init_def Let_def by (cases on) auto
qed

lemma example_init: "\<exists>s0 e0. init bits_arith on (Some example_rf) = Inr (s0, e0)"
proof -
  have "\<exists>r. init bits_arith on (Some example_rf) = Inr r"
    by (rule init_total) (simp_all add: example_rf_def in_int_def)
  then show ?thesis by auto
qed

lemma example_ticks_ok: "list_all (tick_ok example_rf) example_ticks"
  by (simp add: example_ticks_def tick_ok_def example_rf_def)

lemma example_run:
  assumes "init bits_arith on (Some example_rf) = Inr (s0, e0)"
  shows "\<exists>s outs. run bits_arith le_bytes s0 example_ticks = Inr (s, outs)"
proof -
  have "\<exists>r. run bits_arith le_bytes s0 example_ticks = Inr r"
    by (rule run_total [OF init_Inr(1) [OF assms] example_ticks_ok length_le_bytes])
  then show ?thesis by auto
qed

theorem C3_edge_triggered_witness:
  "map get_subscription_count example_ticks = [0, 0, 3, 3, 0] \<and>
   list_all preStep example_ticks \<and>
   bnd (init bits_arith False (Some example_rf)) (\<lambda>(s0, e0).
     bnd (run bits_arith le_bytes s0 example_ticks) (\<lambda>(s, outs).
       Inr (map commands outs))) = Inr [[], [], [Enable], [], [Disable]]"
proof -
  obtain s0 e0 where i: "init bits_arith False (Some example_rf) = Inr (s0, e0)"
    using example_init by blast
  obtain s outs where r: "run bits_arith le_bytes s0 example_ticks = Inr (s, outs)"
    using example_run [OF i] by blast
  have c: "map get_subscription_count example_ticks = [0, 0, 3, 3, 0]"
    and p: "\<forall>t\<in>set example_ticks. preStep t"
    by (simp_all add: example_ticks_def)
  from C3_edge_triggered [OF i c p r] have "map commands outs = [[], [], [Enable], [], [Disable]]"
    by blast
  then show ?thesis using i r c by (simp add: example_ticks_def)
qed

theorem C8_always_on_commands_witness:
  "bnd (init bits_arith True (Some example_rf)) (\<lambda>(s0, e0).
     bnd (run bits_arith le_bytes s0 example_ticks) (\<lambda>(s, outs).
       Inr (commands e0, mIsEnabled s0, mIsEnabled s, map commands outs)))
     = Inr ([Enable], True, True, [[], [], [], [], []]) \<and>
   bnd (init bits_arith False (Some example_rf)) (\<lambda>(s0, e0).
     Inr (commands e0, mIsEnabled s0)) = Inr ([], False)"
proof -
  obtain s0 e0 where i: "init bits_arith True (Some example_rf) = Inr (s0, e0)"
    using example_init by blast
  obtain s outs where r: "run bits_arith le_bytes s0 example_ticks = Inr (s, outs)"
    using example_run [OF i] by blast
  obtain s0' e0' where i': "init bits_arith False (Some example_rf) = Inr (s0', e0')"
    using example_init by blast
  have l: "length outs = 5" using run_facts [OF r] by (simp add: example_ticks_def)
  from C8_always_on_commands [OF i, of le_bytes] r
  have a: "commands e0 = [Enable]" "mIsEnabled s0" "mIsEnabled s"
    "\<forall>out\<in>set outs. commands out = []" by blast+
  from a(4) l have "map commands outs = [[], [], [], [], []]"
    by (auto simp: length_Suc_conv numeral_eq_Suc)
  moreover from C8_always_on_commands [OF i', of le_bytes]
  have "commands e0' = []" "\<not> mIsEnabled s0'" by blast+
  ultimately show ?thesis using i r i' a by simp
qed

theorem C9_flag_mirrors_sensor_witness:
  "bnd (init bits_arith False (Some example_rf)) (\<lambda>(s0, e0).
     bnd (run bits_arith le_bytes s0 example_ticks) (\<lambda>(s, outs).
       Inr (mIsEnabled s = sensor_after False (e0 @ concat outs), commands e0)))
     = Inr (True, [])"
proof -
  obtain s0 e0 where i: "init bits_arith False (Some example_rf) = Inr (s0, e0)"
    using example_init by blast
  obtain s outs where r: "run bits_arith le_bytes s0 example_ticks = Inr (s, outs)"
    using example_run [OF i] by blast
  from C9_flag_mirrors_sensor [OF i r]
  have a: "mIsEnabled s = sensor_after False (e0 @ concat outs)"
    "commands e0 = (if mIsEnabled s0 then [Enable] else [])" by blast+
  have "\<not> mIsEnabled s0" using init_Inr(2) [OF i] by simp
  then show ?thesis using i r a by simp
qed

lemma le_word_le_bytes:
  "le_word (ucast w) (ucast (drop_bit 8 w)) (ucast (drop_bit 16 w)) (ucast (drop_bit 24 w)) = w"
proof (rule bit_word_eqI)
  fix n assume "n < LENGTH(32)"
  then have n: "n < 32" by simp
  consider "n < 8" | "8 \<le> n" "n < 16" | "16 \<le> n" "n < 24" | "24 \<le> n" by linarith
  then show "bit (le_word (ucast w) (ucast (drop_bit 8 w)) (ucast (drop_bit 16 w))
                   (ucast (drop_bit 24 w))) n = bit w n"
    using n unfolding le_word_def by cases (auto simp: bit_simps)
qed

lemma decode_le_bytes: "decode_floats (concat (map le_bytes img)) = img"
  by (induction img) (simp_all add: le_bytes_def le_word_le_bytes)

lemma reachable_sized:
  assumes "init ar on (Some rf) = Inr (s0, e0)" "run ar repr s0 ts = Inr (s, outs)"
  shows "sized ar rf s"
  using run_facts [OF assms(2), of rf] init_Inr(1) [OF assms(1)] by simp

text \<open>
  C7. The depth image is a copy of the raw buffer. With a \<^verbatim>\<open>float\<close> stored as the
  four bytes of its bit pattern, least significant first, \<^verbatim>\<open>publishImage\<close> on a raw
  buffer of width times height values succeeds in every state reached from \<^verbatim>\<open>init\<close>
  and publishes a message whose data are the bytes of the raw buffer in order:
  \<open>4 * width * height\<close> bytes, flagged little-endian, encoding \<open>32FC1\<close>, row length
  \<open>4 * width\<close>. Decoding the data four bytes at a time gives back the raw buffer.
\<close>

theorem C7_depth_image_roundtrip:
  assumes "init ar on (Some rf) = Inr (s0, e0)" and "run ar le_bytes s0 ts = Inr (s, outs)"
    and "length img = nat (getWidth rf * getHeight rf)"
  shows "\<exists>s'. publishImage le_bytes s (Some img) = Inr (s', [PubImage (mImageMessage s')]) \<and>
           im_data (mImageMessage s') = concat (map le_bytes img) \<and>
           length (im_data (mImageMessage s')) = nat (4 * (getWidth rf * getHeight rf)) \<and>
           decode_floats (im_data (mImageMessage s')) = img \<and>
           \<not> im_is_bigendian (mImageMessage s') \<and>
           im_encoding (mImageMessage s') = ''32FC1'' \<and>
           (0 \<le> getWidth rf \<longrightarrow> int (im_step (mImageMessage s')) = 4 * getWidth rf)"
proof -
  have sz: "sized ar rf s" by (rule reachable_sized [OF assms(1,2)])
  from publishImage_total [OF sz assms(3) length_le_bytes] obtain s' where
    p: "publishImage le_bytes s (Some img) = Inr (s', [PubImage (mImageMessage s')])" and
    d: "im_data (mImageMessage s') = concat (map le_bytes img)" by blast
  have sz': "sized ar rf s'" by (rule sized_publishImage(5) [OF p sz])
  have l: "length (im_data (mImageMessage s')) = nat (4 * (getWidth rf * getHeight rf))"
    and b: "\<not> im_is_bigendian (mImageMessage s')"
    and e: "im_encoding (mImageMessage s') = ''32FC1''"
    and st: "im_step (mImageMessage s') = uint32 (4 * (getWidth rf mod 2 ^ 64) mod 2 ^ 64)"
    and w: "in_int (getWidth rf * 12)"
    using sz' by (simp_all add: sized_def)
  have "int (im_step (mImageMessage s')) = 4 * getWidth rf" if "0 \<le> getWidth rf"
  proof -
    have r: "getWidth rf < 2 ^ 31" using w by (simp add: in_int_def)
    then have "getWidth rf mod 2 ^ 64 = getWidth rf" using that by simp
    moreover have "4 * getWidth rf mod 2 ^ 64 = 4 * getWidth rf" using that r by simp
    moreover have "4 * getWidth rf mod 2 ^ 32 = 4 * getWidth rf" using that w
      by (simp add: in_int_def)
    ultimately show ?thesis using that by (simp add: st uint32_def)
  qed
  then show ?thesis using p d l b e by (auto simp: decode_le_bytes)
qed

theorem C7_depth_image_roundtrip_witness:
  "bnd (init bits_arith False (Some example_rf)) (\<lambda>(s0, e0).
     bnd (run bits_arith le_bytes s0 example_ticks) (\<lambda>(s, outs).
       bnd (publishImage le_bytes s (Some [0x40000000, 0x7FC00000])) (\<lambda>(s', out).
         Inr (im_data (mImageMessage s'), decode_floats (im_data (mImageMessage s')),
              im_step (mImageMessage s')))))
   = Inr ([0, 0, 0, 0x40, 0, 0, 0xC0, 0x7F], [0x40000000, 0x7FC00000], 8)"
proof -
  obtain s0 e0 where i: "init bits_arith False (Some example_rf) = Inr (s0, e0)"
    using example_init by blast
  obtain s outs where r: "run bits_arith le_bytes s0 example_ticks = Inr (s, outs)"
    using example_run [OF i] by blast
  have l: "length [0x40000000, 0x7FC00000 :: 32 word] = nat (getWidth example_rf * getHeight example_rf)"
    by (simp add: example_rf_def)
  from C7_depth_image_roundtrip [OF i r l] obtain s' where
    p: "publishImage le_bytes s (Some [0x40000000, 0x7FC00000]) =
          Inr (s', [PubImage (mImageMessage s')])" and
    d: "im_data (mImageMessage s') = concat (map le_bytes [0x40000000, 0x7FC00000])"
       "decode_floats (im_data (mImageMessage s')) = [0x40000000, 0x7FC00000]"
       "0 \<le> getWidth example_rf \<longrightarrow> int (im_step (mImageMessage s')) = 4 * getWidth example_rf"
    by blast
  have "im_step (mImageMessage s') = 8" using d(3) by (simp add: example_rf_def)
  moreover have "concat (map le_bytes [0x40000000, 0x7FC00000]) = [0, 0, 0, 0x40, 0, 0, 0xC0, 0x7F]"
    by (simp add: le_bytes_def drop_bit_eq_div)
  ultimately show ?thesis using i r p d(1,2) by simp
qed

lemma pixel_index_bounds:
  assumes "0 \<le> i" "i < w" "0 \<le> j" "j < h"
  shows "0 \<le> i + j * w" "i + j * w < w * (h::int)"
proof -
  have "0 \<le> j * w" using assms by simp
  then show "0 \<le> i + j * w" using assms(1) by simp
  have "j * w \<le> (h - 1) * w" using assms by (intro mult_right_mono) auto
  then show "i + j * w < w * h" using assms(2) by (simp add: algebra_simps)
qed



lemma lateral_real: "lateral real_arith n c x f = - (of_int n - c) * x / f"
  by (simp add: lateral_def real_arith_def)

text \<open>
  C1. What the projection writes. In every state reached from \<^verbatim>\<open>init\<close>, on a raw
  buffer of width times height values \<^verbatim>\<open>publishPointCloud\<close> publishes a cloud in which,
  for every pixel \<open>(i, j)\<close>, the point at index \<open>n = i + j * width\<close> (the floats
  \<open>3 * n\<close>, \<open>3 * n + 1\<close>, \<open>3 * n + 2\<close>) is \<open>x\<close>, \<open>y\<close>, \<open>z\<close> with \<open>x\<close> the raw value
  at \<open>n\<close>, unchanged whatever value it is, \<open>y = -(i - cx) * x / fx\<close> and
  \<open>z = -(j - cy) * x / fy\<close>, computed with the float operations; \<open>cx\<close>, \<open>cy\<close>, \<open>fx\<close>,
  \<open>fy\<close> are the entries 2, 5, 0 and 4 of the calibration matrix \<open>K\<close>, narrowed to float.
  In exact arithmetic the float operations give the formula as written.
\<close>

theorem C1_projection_points:
  assumes "init ar on (Some rf) = Inr (s0, e0)" and "run ar repr s0 ts = Inr (s, outs)"
    and "length img = nat (getWidth rf * getHeight rf)"
  shows "(\<exists>s'. publishPointCloud ar s (Some img) =
                 Inr (s', [PubPointCloud (mPointCloudMessage s')]) \<and>
            (\<forall>i j. 0 \<le> i \<and> i < getWidth rf \<and> 0 \<le> j \<and> j < getHeight rf \<longrightarrow>
               (let n = nat (i + j * getWidth rf);
                    x = img ! n;
                    data = pc_data (mPointCloudMessage s');
                    K = ci_k (mCameraInfoMessage s);
                    cx = f_of_d ar (K ! 2); cy = f_of_d ar (K ! 5);
                    fx = f_of_d ar (K ! 0); fy = f_of_d ar (K ! 4)
                in data ! (3 * n) = x \<and>
                   data ! (3 * n + 1) =
                     f_div ar (f_mul ar (f_neg ar (f_sub ar (f_of_int ar i) cx)) x) fx \<and>
                   data ! (3 * n + 2) =
                     f_div ar (f_mul ar (f_neg ar (f_sub ar (f_of_int ar j) cy)) x) fy))) \<and>
         (\<forall>n c x f.
            f_div real_arith (f_mul real_arith
              (f_neg real_arith (f_sub real_arith (f_of_int real_arith n) c)) x) f
            = - (real_of_int n - c) * x / f)"
proof -
  have sz: "sized ar rf s" by (rule reachable_sized [OF assms(1,2)])
  define c where "c = read_intrinsics ar (mCameraInfoMessage s)"
  from publishPointCloud_total [OF sz assms(3)] obtain s' where
    p: "publishPointCloud ar s (Some img) = Inr (s', [PubPointCloud (mPointCloudMessage s')])"
    by blast
  then obtain data where
    l: "loop_j ar c img 0 (pc_data (mPointCloudMessage s)) = Inr data" and
    d: "pc_data (mPointCloudMessage s') = data"
    unfolding publishPointCloud_Some c_def by auto
  have pt: "let n = nat (i + j * getWidth rf);
                    x = img ! n;
                    data = pc_data (mPointCloudMessage s');
                    K = ci_k (mCameraInfoMessage s);
                    cx = f_of_d ar (K ! 2); cy = f_of_d ar (K ! 5);
                    fx = f_of_d ar (K ! 0); fy = f_of_d ar (K ! 4)
                in data ! (3 * n) = x \<and>
                   data ! (3 * n + 1) =
                     f_div ar (f_mul ar (f_neg ar (f_sub ar (f_of_int ar i) cx)) x) fx \<and>
                   data ! (3 * n + 2) =
                     f_div ar (f_mul ar (f_neg ar (f_sub ar (f_of_int ar j) cy)) x) fy"
    if "0 \<le> i" "i < getWidth rf" "0 \<le> j" "j < getHeight rf" for i j
  proof -
    have w: "in_width c = getWidth rf" unfolding c_def by (rule sized_intrinsics(1) [OF sz])
    have "getWidth rf \<noteq> 0" using that by simp
    then have h: "in_height c = getHeight rf"
      unfolding c_def by (rule sized_intrinsics(2) [OF sz])
    have "0 \<le> in_width c" using that w by simp
    from loop_j_result [OF l _ this]
    have "written ar c img data j i" using that w h by simp
    then have wr: "data ! nat (m * 3) = img ! nat m"
      "data ! nat (m * 3 + 1) = lateral ar i (in_cx c) (img ! nat m) (in_fx c)"
      "data ! nat (m * 3 + 2) = lateral ar j (in_cy c) (img ! nat m) (in_fy c)"
      if "m = i + j * getWidth rf" for m
      unfolding written_def Let_def w that by simp_all
    have cf: "in_cx c = f_of_d ar (ci_k (mCameraInfoMessage s) ! 2)"
      "in_cy c = f_of_d ar (ci_k (mCameraInfoMessage s) ! 5)"
      "in_fx c = f_of_d ar (ci_k (mCameraInfoMessage s) ! 0)"
      "in_fy c = f_of_d ar (ci_k (mCameraInfoMessage s) ! 4)"
      by (simp_all add: c_def read_intrinsics_def)
    define m where "m = i + j * getWidth rf"
    have "0 \<le> m" unfolding m_def by (rule pixel_index_bounds(1) [OF that])
    then have nm: "nat (m * 3) = 3 * nat m" "nat (m * 3 + 1) = 3 * nat m + 1"
      "nat (m * 3 + 2) = 3 * nat m + 2"
      by (simp_all add: nat_add_distrib nat_mult_distrib)
    show ?thesis
      using wr [OF m_def] unfolding nm cf lateral_def Let_def d m_def [symmetric]
      by simp
  qed
  have "f_div real_arith (f_mul real_arith
              (f_neg real_arith (f_sub real_arith (f_of_int real_arith n) c)) x) f
            = - (real_of_int n - c) * x / f" for n c x f
    by (simp add: real_arith_def)
  with p pt show ?thesis by blast
qed

lemma tan_quarter: "tan (1 / 2 * (pi / 2)) = 1"
proof -
  have "1 / 2 * (pi / 2) = pi / 4" by simp
  then show ?thesis by (simp only: tan_45)
qed

lemma example_calibration:
  "ci_k (init_camera_info real_arith 2 1 (pi / 2)) = [1, 0, 1, 0, 1 / 2, 1 / 2, 0, 0, 1]"
  by (simp add: init_camera_info_def Let_def focalLengthX_def focalLengthY_def real_arith_def
      tan_45)

lemma example_init_real:
  "init real_arith False (Some example_rf) =
     Inr (\<lparr> mIsEnabled = False, mAlwaysOn = False,
            mImageMessage = \<lparr> im_height = 1, im_width = 2, im_encoding = ''32FC1'',
              im_is_bigendian = False, im_step = 8, im_data = replicate 8 0 \<rparr>,
            mCameraInfoMessage = init_camera_info real_arith 2 1 (pi / 2),
            mPointCloudMessage = \<lparr> pc_height = 1, pc_width = 2,
              pc_fields = [(''x'', 0, 7, 1), (''y'', 4, 7, 1), (''z'', 8, 7, 1)],
              pc_is_bigendian = False, pc_point_step = 12, pc_row_step = 24,
              pc_data = [0, 0, 0, 0, 0, 0] \<rparr> \<rparr>,
          [PubCameraInfo (init_camera_info real_arith 2 1 (pi / 2))])"
proof -
  have r6: "replicate 6 (0::real) = [0, 0, 0, 0, 0, 0]" by (simp add: numeral_eq_Suc)
  show ?thesis
    by (simp add: init_def init_image_def init_point_cloud_def example_rf_def Let_def
        mul_int_def in_int_def resize_def uint32_def real_arith_def r6)
qed

lemma example_intrinsics:
  "read_intrinsics real_arith (init_camera_info real_arith 2 1 (pi / 2)) =
     \<lparr> in_width = 2, in_height = 1, in_cx = 1, in_cy = 1 / 2, in_fx = 1, in_fy = 1 / 2 \<rparr>"
  by (simp add: read_intrinsics_def example_calibration)
    (simp add: init_camera_info_def Let_def uint32_def int_of_uint32_def real_arith_def)

lemma example_loop:
  "loop_j real_arith
     \<lparr> in_width = 2, in_height = 1, in_cx = 1, in_cy = 1 / 2, in_fx = 1, in_fy = 1 / 2 \<rparr>
     [2, 2] 0 [0, 0, 0, 0, 0, 0] = Inr [2, 2, 2, 2, 0, 2]"
  by (simp add: loop_j.simps loop_i.simps pixel_def Let_def mul_int_def add_int_def in_int_def
      read_at_def write_at_def lateral_real nat_add_distrib)

lemma example_cloud:
  "bnd (init real_arith False (Some example_rf)) (\<lambda>(s0, e0).
     bnd (publishPointCloud real_arith s0 (Some [2, 2])) (\<lambda>(s', out).
       Inr (ci_k (mCameraInfoMessage s0), pc_data (mPointCloudMessage s'))))
   = Inr ([1, 0, 1, 0, 1 / 2, 1 / 2, 0, 0, 1], [2, 2, 2, 2, 0, 2])"
  by (simp add: example_init_real publishPointCloud_def example_intrinsics example_loop
      example_calibration Let_def)

theorem C1_projection_points_witness:
  "bnd (init real_arith False (Some example_rf)) (\<lambda>(s0, e0).
     bnd (publishPointCloud real_arith s0 (Some [2, 4])) (\<lambda>(s', out).
       Inr (map ((!) (pc_data (mPointCloudMessage s'))) [0, 1, 2, 3, 4, 5])))
   = Inr [2, 2, 2, 4, 0, 4]"
proof -
  obtain s0 e0 where i: "init real_arith False (Some example_rf) = Inr (s0, e0)"
    and k: "ci_k (mCameraInfoMessage s0) = [1, 0, 1, 0, 1 / 2, 1 / 2, 0, 0, 1]"
    by (simp add: example_init_real example_calibration)
  have r: "run real_arith (\<lambda>_. []) s0 [] = Inr (s0, [])" by simp
  have l: "length [2, 4 :: real] = nat (getWidth example_rf * getHeight example_rf)"
    by (simp add: example_rf_def)
  from C1_projection_points [OF i r l] obtain s' where
    p: "publishPointCloud real_arith s0 (Some [2, 4]) =
          Inr (s', [PubPointCloud (mPointCloudMessage s')])" and
    a: "\<forall>i j. 0 \<le> i \<and> i < getWidth example_rf \<and> 0 \<le> j \<and> j < getHeight example_rf \<longrightarrow>
               (let n = nat (i + j * getWidth example_rf);
                    x = [2, 4] ! n;
                    data = pc_data (mPointCloudMessage s');
                    K = ci_k (mCameraInfoMessage s0);
                    cx = f_of_d real_arith (K ! 2); cy = f_of_d real_arith (K ! 5);
                    fx = f_of_d real_arith (K ! 0); fy = f_of_d real_arith (K ! 4)
                in data ! (3 * n) = x \<and>
                   data ! (3 * n + 1) =
                     f_div real_arith (f_mul real_arith (f_neg real_arith
                       (f_sub real_arith (f_of_int real_arith i) cx)) x) fx \<and>
                   data ! (3 * n + 2) =
                     f_div real_arith (f_mul real_arith (f_neg real_arith
                       (f_sub real_arith (f_of_int real_arith j) cy)) x) fy)"
    by blast
  from a [rule_format, of 0 0] a [rule_format, of 1 0]
  have "map ((!) (pc_data (mPointCloudMessage s'))) [0, 1, 2, 3, 4, 5] = [2, 2, 2, 4, 0, 4]"
    by (simp add: example_rf_def k Let_def real_arith_def numeral_2_eq_2)
  then show ?thesis using i p by simp
qed

text \<open>
  C6 (as stated). The scenario of two by one pixels with a field of view of a right angle
  and the raw buffer 2.0, 2.0 does not give \<open>fy = 1.0\<close> nor the points (2, 2, 1) and
  (2, 0, 1): the matrix \<open>K\<close> and the cloud the code produces differ from the claimed
  ones.
\<close>

theorem C6_scenario_counterexample:
  "bnd (init real_arith False (Some example_rf)) (\<lambda>(s0, e0).
     bnd (publishPointCloud real_arith s0 (Some [2, 2])) (\<lambda>(s', out).
       Inr (ci_k (mCameraInfoMessage s0), pc_data (mPointCloudMessage s'))))
   \<noteq> Inr ([1, 0, 1, 0, 1, 1 / 2, 0, 0, 1], [2, 2, 1, 2, 0, 1])"
  by (simp add: example_cloud)

text \<open>
  C6 (amended). In exact arithmetic, for two by one pixels and a field of view of a right
  angle, \<^verbatim>\<open>init\<close> gives \<open>fx = 1\<close>, \<open>fy = 1/2\<close>, \<open>cx = 1\<close>, \<open>cy = 1/2\<close> (the focal
  length along y is taken from the height), and projecting the raw buffer 2.0, 2.0 gives
  the points (2, 2, 2) and (2, 0, 2).
\<close>

theorem C6_scenario_amended:
  "bnd (init real_arith False (Some example_rf)) (\<lambda>(s0, e0).
     bnd (publishPointCloud real_arith s0 (Some [2, 2])) (\<lambda>(s', out).
       Inr (ci_k (mCameraInfoMessage s0), pc_data (mPointCloudMessage s'))))
   = Inr ([1, 0, 1, 0, 1 / 2, 1 / 2, 0, 0, 1], [2, 2, 2, 2, 0, 2])"
  by (rule example_cloud)



lemma step_publication:
  assumes "step ar repr s t = Inr (s', out)" "e \<in> set out" "\<not> is_command e"
  shows "preStep t \<and> mIsEnabled s \<and>
         (\<exists>img. getRangeImage t = Some img \<and>
            (e = PubImage (mImageMessage s') \<or> e = PubPointCloud (mPointCloudMessage s')) \<and>
            length (im_data (mImageMessage s)) \<le> length (concat (map repr img)) \<and>
            im_data (mImageMessage s') =
              take (length (im_data (mImageMessage s))) (concat (map repr img)) \<and>
            loop_j ar (read_intrinsics ar (mCameraInfoMessage s)) img 0
              (pc_data (mPointCloudMessage s)) = Inr (pc_data (mPointCloudMessage s')))"
proof -
  have p: "preStep t" using assms by (auto simp: step_Inr split: if_splits)
  with assms(1) obtain s1 out1 where em: "emit ar repr s t = Inr (s1, out1)" and
    r: "if toggles s t
        then s' = s1\<lparr>mIsEnabled := 0 < get_subscription_count t\<rparr> \<and>
             out = out1 @ [if 0 < get_subscription_count t then Enable else Disable]
        else s' = s1 \<and> out = out1"
    by (auto simp: step_Inr)
  have m: "mImageMessage s' = mImageMessage s1" "mPointCloudMessage s' = mPointCloudMessage s1"
    using r by (auto split: if_splits)
  have e1: "e \<in> set out1" using r assms(2,3) by (auto split: if_splits)
  have en: "mIsEnabled s \<and> getRangeImage t \<noteq> None"
  proof (rule ccontr)
    assume "\<not> (mIsEnabled s \<and> getRangeImage t \<noteq> None)"
    from emit_cases(1) [OF em this] e1 show False by simp
  qed
  then obtain img where i: "getRangeImage t = Some img" by auto
  from emit_cases(2) [OF em _ i] en e1 show ?thesis
    unfolding m using p i by auto
qed

lemma step_publishes:
  assumes "step ar repr s t = Inr (s', out)" "preStep t" "mIsEnabled s" "getRangeImage t = Some img"
  shows "PubImage (mImageMessage s') \<in> set out" "PubPointCloud (mPointCloudMessage s') \<in> set out"
proof -
  from assms(1,2) obtain s1 out1 where em: "emit ar repr s t = Inr (s1, out1)" and
    r: "if toggles s t
        then s' = s1\<lparr>mIsEnabled := 0 < get_subscription_count t\<rparr> \<and>
             out = out1 @ [if 0 < get_subscription_count t then Enable else Disable]
        else s' = s1 \<and> out = out1"
    by (auto simp: step_Inr)
  have m: "mImageMessage s' = mImageMessage s1" "mPointCloudMessage s' = mPointCloudMessage s1"
    using r by (auto split: if_splits)
  from emit_cases(2) [OF em assms(3,4)]
  have "out1 = [PubImage (mImageMessage s1), PubPointCloud (mPointCloudMessage s1)]" by simp
  then show "PubImage (mImageMessage s') \<in> set out"
    "PubPointCloud (mPointCloudMessage s') \<in> set out"
    unfolding m using r by (auto split: if_splits)
qed

lemma step_unavailable:
  assumes "getRangeImage t = None"
  shows "\<exists>s' out. step ar repr s t = Inr (s', out) \<and>
           mImageMessage s' = mImageMessage s \<and> mPointCloudMessage s' = mPointCloudMessage s \<and>
           (\<forall>m. PubImage m \<notin> set out) \<and> (\<forall>m. PubPointCloud m \<notin> set out)"
proof -
  have em: "emit ar repr s t = Inr (s, [])"
    using assms by (simp add: emit_def publish_None)
  show ?thesis
  proof (cases "preStep t")
    case False
    then have "step ar repr s t = Inr (s, [])" by (simp add: step_Inr)
    then show ?thesis by (intro exI [of _ s] exI [of _ "[]"]) simp
  next
    case True
    show ?thesis
    proof (cases "toggles s t")
      case True
      have "step ar repr s t = Inr (s\<lparr>mIsEnabled := 0 < get_subscription_count t\<rparr>,
              [if 0 < get_subscription_count t then Enable else Disable])"
        unfolding step_Inr using \<open>preStep t\<close> True em by simp
      then show ?thesis
        by (intro exI [of _ "s\<lparr>mIsEnabled := 0 < get_subscription_count t\<rparr>"]
            exI [of _ "[if 0 < get_subscription_count t then Enable else Disable]"]) simp
    next
      case False
      have "step ar repr s t = Inr (s, [])"
        unfolding step_Inr using \<open>preStep t\<close> False em by simp
      then show ?thesis by (intro exI [of _ s] exI [of _ "[]"]) simp
    qed
  qed
qed

text \<open>
  C5. A tick without a raw buffer publishes nothing and leaves both buffers alone. In any
  state, a tick on which \<^verbatim>\<open>getRangeImage\<close> returns null completes, publishes neither
  a depth image nor a point cloud, and leaves the image message and the point-cloud
  message, hence their data, as they were; that covers the ticks on which the plugin is
  enabled. And nothing half-written is published on any tick: in a state reached from
  \<^verbatim>\<open>init\<close>, a depth image published on a tick holds, over its whole length
  \<open>4 * width * height\<close>, the leading bytes of that tick's raw buffer, and a point cloud
  published on a tick has \<open>3 * width * height\<close> floats in which the point of every
  pixel is the one computed from that tick's raw buffer.
\<close>

theorem C5_skip_on_unavailable:
  assumes "init ar on (Some rf) = Inr (s0, e0)" and "run ar repr s0 ts = Inr (s, outs)"
  shows "(\<forall>x t. mIsEnabled x \<and> getRangeImage t = None \<longrightarrow>
            (\<exists>x' out. step ar repr x t = Inr (x', out) \<and>
               (\<forall>m. PubImage m \<notin> set out) \<and> (\<forall>m. PubPointCloud m \<notin> set out) \<and>
               mImageMessage x' = mImageMessage x \<and>
               mPointCloudMessage x' = mPointCloudMessage x)) \<and>
         (\<forall>t s' out. step ar repr s t = Inr (s', out) \<longrightarrow>
            (\<forall>m. PubImage m \<in> set out \<longrightarrow>
               (\<exists>img. getRangeImage t = Some img \<and>
                  length (im_data m) = nat (4 * (getWidth rf * getHeight rf)) \<and>
                  im_data m = take (length (im_data m)) (concat (map repr img)))) \<and>
            (\<forall>m. PubPointCloud m \<in> set out \<longrightarrow>
               (\<exists>img. getRangeImage t = Some img \<and>
                  length (pc_data m) = nat (3 * (getWidth rf * getHeight rf)) \<and>
                  (\<forall>i j. 0 \<le> i \<and> i < getWidth rf \<and> 0 \<le> j \<and> j < getHeight rf \<longrightarrow>
                     written ar (read_intrinsics ar (mCameraInfoMessage s)) img
                       (pc_data m) j i))))"
proof -
  have sz: "sized ar rf s" by (rule reachable_sized [OF assms])
  have a: "\<exists>x' out. step ar repr x t = Inr (x', out) \<and>
               (\<forall>m. PubImage m \<notin> set out) \<and> (\<forall>m. PubPointCloud m \<notin> set out) \<and>
               mImageMessage x' = mImageMessage x \<and>
               mPointCloudMessage x' = mPointCloudMessage x"
    if "getRangeImage t = None" for x :: "('a, 'b) plugin" and t
    using step_unavailable [OF that, of ar repr x] by blast
  have b: "\<exists>img. getRangeImage t = Some img \<and>
                  length (im_data m) = nat (4 * (getWidth rf * getHeight rf)) \<and>
                  im_data m = take (length (im_data m)) (concat (map repr img))"
    if st: "step ar repr s t = Inr (s', out)" and m: "PubImage m \<in> set out" for t s' out m
  proof -
    from step_publication [OF st m] obtain img where
      i: "getRangeImage t = Some img" and
      e: "m = mImageMessage s'" and
      l: "length (im_data (mImageMessage s)) \<le> length (concat (map repr img))" and
      d: "im_data (mImageMessage s') =
              take (length (im_data (mImageMessage s))) (concat (map repr img))"
      by auto
    have "length (im_data (mImageMessage s)) = nat (4 * (getWidth rf * getHeight rf))"
      using sz by (simp add: sized_def)
    then show ?thesis using i e l d by simp
  qed
  have c: "\<exists>img. getRangeImage t = Some img \<and>
                  length (pc_data m) = nat (3 * (getWidth rf * getHeight rf)) \<and>
                  (\<forall>i j. 0 \<le> i \<and> i < getWidth rf \<and> 0 \<le> j \<and> j < getHeight rf \<longrightarrow>
                     written ar (read_intrinsics ar (mCameraInfoMessage s)) img
                       (pc_data m) j i)"
    if st: "step ar repr s t = Inr (s', out)" and m: "PubPointCloud m \<in> set out" for t s' out m
  proof -
    define c where "c = read_intrinsics ar (mCameraInfoMessage s)"
    from step_publication [OF st m] obtain img where
      i: "getRangeImage t = Some img" and
      e: "m = mPointCloudMessage s'" and
      l: "loop_j ar c img 0 (pc_data (mPointCloudMessage s)) = Inr (pc_data (mPointCloudMessage s'))"
      unfolding c_def by auto
    have len: "length (pc_data m) = nat (3 * (getWidth rf * getHeight rf))"
      using loop_j_length [OF l] sz unfolding e by (simp add: sized_def)
    have "written ar c img (pc_data m) j i"
      if "0 \<le> i" "i < getWidth rf" "0 \<le> j" "j < getHeight rf" for i j
    proof -
      have w: "in_width c = getWidth rf" unfolding c_def by (rule sized_intrinsics(1) [OF sz])
      have "getWidth rf \<noteq> 0" using that by simp
      then have h: "in_height c = getHeight rf"
        unfolding c_def by (rule sized_intrinsics(2) [OF sz])
      have "0 \<le> in_width c" using that w by simp
      from loop_j_result [OF l _ this] show ?thesis unfolding e using that w h by simp
    qed
    then show ?thesis using i len unfolding c_def by blast
  qed
  show ?thesis using a b c by blast
qed

lemma step_idle:
  assumes "\<not> mIsEnabled s" "\<not> mAlwaysOn s" "preStep t" "0 < get_subscription_count t"
  shows "step ar repr s t = Inr (s\<lparr>mIsEnabled := True\<rparr>, [Enable])"
proof -
  have "emit ar repr s t = Inr (s, [])" using assms(1) by (simp add: emit_def)
  moreover have "toggles s t" using assms by (simp add: toggles_def)
  ultimately show ?thesis unfolding step_Inr using assms(3,4) by simp
qed

theorem C5_skip_on_unavailable_witness:
  "bnd (init bits_arith True (Some example_rf)) (\<lambda>(s0, e0).
     bnd (run bits_arith le_bytes s0 example_ticks) (\<lambda>(s, outs).
       bnd (step bits_arith le_bytes s
              \<lparr> preStep = True, getRangeImage = None, get_subscription_count = 3 \<rparr>)
         (\<lambda>(s', out).
            Inr (mIsEnabled s, mImageMessage s' = mImageMessage s,
                 mPointCloudMessage s' = mPointCloudMessage s))))
   = Inr (True, True, True)"
proof -
  obtain s0 e0 where i: "init bits_arith True (Some example_rf) = Inr (s0, e0)"
    using example_init by blast
  obtain s outs where r: "run bits_arith le_bytes s0 example_ticks = Inr (s, outs)"
    using example_run [OF i] by blast
  have en: "mIsEnabled s"
    using run_alwaysOn [OF r] init_Inr(2,3) [OF i] by simp
  define t :: "32 word tick" where
    "t = \<lparr> preStep = True, getRangeImage = None, get_subscription_count = 3 \<rparr>"
  have n: "getRangeImage t = None" by (simp add: t_def)
  from C5_skip_on_unavailable [OF i r] en n obtain s' out where
    "step bits_arith le_bytes s t = Inr (s', out)"
    "mImageMessage s' = mImageMessage s" "mPointCloudMessage s' = mPointCloudMessage s"
    by blast
  then show ?thesis using i r en unfolding t_def by simp
qed

text \<open>
  C4 (as stated). Emission does not follow the count queried on the same tick. From the
  idle state after \<^verbatim>\<open>init\<close> with always-on off, a tick that \<^verbatim>\<open>preStep\<close> lets through,
  with three subscribers and a raw buffer available, makes one call only, the enable
  command: neither the depth image nor the point cloud is published on that tick.
\<close>

theorem C4_emission_counterexample:
  "bnd (init bits_arith False (Some example_rf)) (\<lambda>(s0, e0).
     bnd (step bits_arith le_bytes s0 first_demand_tick) (\<lambda>(s', out). Inr out))
   = Inr [Enable]"
proof -
  obtain s0 e0 where i: "init bits_arith False (Some example_rf) = Inr (s0, e0)"
    using example_init by blast
  have "step bits_arith le_bytes s0 first_demand_tick = Inr (s0\<lparr>mIsEnabled := True\<rparr>, [Enable])"
    by (rule step_idle) (simp_all add: init_Inr(2,3) [OF i] first_demand_tick_def)
  then show ?thesis using i by simp
qed

text \<open>
  C4 (amended). With always-on off, \<open>step\<close> publishes before it evaluates the demand. On
  a tick that \<^verbatim>\<open>preStep\<close> lets through, in a state reached from \<^verbatim>\<open>init\<close>, the depth
  image and the point cloud are published exactly when the plugin is enabled at the start
  of the tick and the raw buffer is available; the subscription count queried on the tick
  decides the enabled flag the tick leaves, that is, the emission of the next tick. On the
  tick on which the count becomes positive in the idle state the only call is the enable
  command.
\<close>

theorem C4_emission_follows_flag:
  assumes "init ar False (Some rf) = Inr (s0, e0)" and "run ar repr s0 ts = Inr (s, outs)"
    and "step ar repr s t = Inr (s', out)" and "preStep t"
  shows "((\<exists>m. PubImage m \<in> set out) \<longleftrightarrow> mIsEnabled s \<and> getRangeImage t \<noteq> None) \<and>
         ((\<exists>m. PubPointCloud m \<in> set out) \<longleftrightarrow> mIsEnabled s \<and> getRangeImage t \<noteq> None) \<and>
         mIsEnabled s' = (0 < get_subscription_count t) \<and>
         (\<not> mIsEnabled s \<and> 0 < get_subscription_count t \<longrightarrow> out = [Enable])"
proof -
  have na: "\<not> mAlwaysOn s" using run_facts [OF assms(2)] init_Inr(3) [OF assms(1)] by simp
  have a: "mIsEnabled s \<and> getRangeImage t \<noteq> None" if "PubImage m \<in> set out" for m
    using step_publication [OF assms(3) that] by auto
  have b: "mIsEnabled s \<and> getRangeImage t \<noteq> None" if "PubPointCloud m \<in> set out" for m
    using step_publication [OF assms(3) that] by auto
  have c: "(\<exists>m. PubImage m \<in> set out) \<and> (\<exists>m. PubPointCloud m \<in> set out)"
    if "mIsEnabled s" "getRangeImage t \<noteq> None"
  proof -
    from that(2) obtain img where "getRangeImage t = Some img" by auto
    from step_publishes [OF assms(3,4) that(1) this] show ?thesis by blast
  qed
  have d: "mIsEnabled s' = (0 < get_subscription_count t)"
    using step_facts(4) [OF assms(3)] assms(4) na by simp
  have e: "out = [Enable]" if "\<not> mIsEnabled s" "0 < get_subscription_count t"
    using step_idle [OF that(1) na assms(4) that(2), of ar repr] assms(3) by simp
  show ?thesis using a b c d e by blast
qed

theorem C4_emission_follows_flag_witness:
  "bnd (init bits_arith False (Some example_rf)) (\<lambda>(s0, e0).
     bnd (step bits_arith le_bytes s0 first_demand_tick) (\<lambda>(s1, out1).
       bnd (step bits_arith le_bytes s1 first_demand_tick) (\<lambda>(s2, out2).
         Inr (out1, mIsEnabled s1, \<exists>m. PubImage m \<in> set out2,
              \<exists>m. PubPointCloud m \<in> set out2))))
   = Inr ([Enable], True, True, True)"
proof -
  obtain s0 e0 where i: "init bits_arith False (Some example_rf) = Inr (s0, e0)"
    using example_init by blast
  have k: "tick_ok example_rf first_demand_tick" "preStep first_demand_tick"
    "0 < get_subscription_count first_demand_tick" "getRangeImage first_demand_tick \<noteq> None"
    by (simp_all add: tick_ok_def example_rf_def first_demand_tick_def)
  have z0: "sized bits_arith example_rf s0" by (rule init_Inr(1) [OF i])
  from step_total [OF z0 k(1) length_le_bytes] obtain s1 out1 where
    st1: "step bits_arith le_bytes s0 first_demand_tick = Inr (s1, out1)" by auto
  have r0: "run bits_arith le_bytes s0 [] = Inr (s0, [])" by simp
  have "\<not> mIsEnabled s0" using init_Inr(2) [OF i] by simp
  with C4_emission_follows_flag [OF i r0 st1 k(2)] k(3)
  have a: "out1 = [Enable]" "mIsEnabled s1" by simp_all
  have r1: "run bits_arith le_bytes s0 [first_demand_tick] = Inr (s1, [out1])"
    using st1 by simp
  have z1: "sized bits_arith example_rf s1" by (rule step_facts(3) [OF st1 z0])
  from step_total [OF z1 k(1) length_le_bytes] obtain s2 out2 where
    st2: "step bits_arith le_bytes s1 first_demand_tick = Inr (s2, out2)" by auto
  from C4_emission_follows_flag [OF i r1 st2 k(2)] a(2) k(4)
  have "\<exists>m. PubImage m \<in> set out2" "\<exists>m. PubPointCloud m \<in> set out2" by simp_all
  then show ?thesis using i st1 st2 a by simp
qed

end
